theory Spec2Isabelle
  imports Complex_Main "HOL-Library.Product_Lexorder" "HOL-Library.Sublist"
begin

section \<open>The per-agent learning store (agent\_memory.py) and the pattern miner (pattern\_miner.py)\<close>

text \<open>
  Conventions of the embedding.

  \<^item> The three SQLite tables are lists of rows in insertion (rowid) order; a row is a record
    with one field per column. A \<open>PRIMARY KEY\<close> violation is the value
    \<open>Inl IntegrityError\<close>, and a statement executed with the wrong number of bound
    parameters is \<open>Inl ProgrammingError\<close>, as the sqlite3 module raises them. An operation
    that cannot raise returns its result and the store; one that can returns a sum.
  \<^item> A Python float is a \<open>real\<close> (no NaN, no infinity): comparisons and the
    \<open>min\<close>/\<open>max\<close> clamps are the same on both. In the store's operations the one sum,
    \<open>confidence + 0.05\<close>, is the exact one. The miner, whose decisions and descriptions hang
    on the last bit, rounds every operation to binary64 as the program does (see
    \<open>fl\<close>). A Python int is an \<open>int\<close> (or a \<open>nat\<close> for a counter that starts at 0 and is only
    incremented); the integers bound to a statement are taken to fit SQLite's 64 bits.
  \<^item> A \<open>str\<close> is a \<open>string\<close>, one \<open>char\<close> per code point (code points 0..255), so that
    \<open>len\<close> is \<open>length\<close> and the slice \<open>[:n]\<close> is \<open>take n\<close>.
  \<^item> \<open>datetime.now(ET)\<close> is an input of every operation that reads the clock: the wall-clock
    reading of the agent's zone, counted in microseconds. The ISO-8601 text the code stores
    is ordered (as SQLite TEXT) like the reading it renders, so the model stores the reading
    itself; the empty text \<open>''\<close> of the column \<open>expires_at\<close> is \<open>None\<close>. Adding a
    \<open>timedelta\<close> to an aware \<open>datetime\<close> adds to the wall-clock reading. A change of the
    zone's offset, at which two readings of one hour differ in the offset only, is outside
    the model.
  \<^item> \<open>uuid.uuid4().hex\<close> is an input as well: the operation that creates a row is given the
    hex string its call of \<open>uuid4\<close> returns.
  \<^item> \<open>json.dumps(tags or [])\<close> and the \<open>json.loads\<close> that reads it back are the identity on a
    list of strings: the column \<open>tags\<close> holds the list.
\<close>

type_synonym time = int

datatype error = IntegrityError | ProgrammingError

record decision =
  d_id :: string
  d_timestamp :: time
  d_context :: string
  d_decision :: string
  d_reasoning :: string
  d_confidence :: real
  d_outcome :: string
  d_outcome_score :: real
  d_resolved :: bool
  d_tags :: "string list"

record pattern =
  p_id :: string
  p_pattern_type :: string
  p_description :: string
  p_evidence_count :: int
  p_confidence :: real
  p_active :: bool
  p_created_at :: time
  p_updated_at :: time
  p_tags :: "string list"

record knowledge =
  k_id :: string
  k_category :: string
  k_key :: string
  k_value :: string
  k_source :: string
  k_ttl_hours :: int
  k_created_at :: time
  k_expires_at :: "time option"

record store =
  decisions :: "decision list"
  patterns :: "pattern list"
  knowledge_rows :: "knowledge list"

subsection \<open>SQL fragments\<close>

text \<open>
  \<open>ORDER BY key DESC\<close>: descending in the key. SQLite leaves the order of rows with equal
  keys to the query plan; the model takes them latest inserted first (the order of a
  backwards scan of the index on the key), and no theorem below depends on that choice.
\<close>

definition order_by_desc :: "('a \<Rightarrow> 'k::linorder) \<Rightarrow> 'a list \<Rightarrow> 'a list" where
  "order_by_desc key rows = rev (sort_key key rows)"

text \<open>\<open>LIMIT n\<close>: the first \<open>n\<close> rows; SQLite puts no bound when \<open>n\<close> is negative.\<close>

definition sql_limit :: "int \<Rightarrow> 'a list \<Rightarrow> 'a list" where
  "sql_limit n rows = (if n < 0 then rows else take (nat n) rows)"

text \<open>
  \<open>str.split()\<close> without arguments: the maximal runs of characters that are not white space
  (the white space of \<open>str.isspace\<close> among the code points 0..255).
\<close>

definition py_isspace :: "char \<Rightarrow> bool" where
  "py_isspace c = ((of_char c :: nat) \<in> {9, 10, 11, 12, 13, 28, 29, 30, 31, 32, 133, 160})"

function py_split :: "string \<Rightarrow> string list" where
  "py_split [] = []"
| "py_split (c # cs) =
     (if py_isspace c then py_split cs
      else (c # takeWhile (\<lambda>x. \<not> py_isspace x) cs) # py_split (dropWhile (\<lambda>x. \<not> py_isspace x) cs))"
  by pat_completeness auto
termination
  by (relation "measure length") (auto simp: length_dropWhile_le less_Suc_eq_le)

text \<open>\<open>str.lower()\<close> on the code points 0..255, and SQLite's \<open>LOWER\<close>, which folds ASCII only.\<close>

definition py_lower_char :: "char \<Rightarrow> char" where
  "py_lower_char c =
     (let n = (of_char c :: nat) in
      if (65 \<le> n \<and> n \<le> 90) \<or> (192 \<le> n \<and> n \<le> 222 \<and> n \<noteq> 215) then char_of (n + 32) else c)"

definition py_lower :: "string \<Rightarrow> string" where
  "py_lower w = map py_lower_char w"

definition sql_lower_char :: "char \<Rightarrow> char" where
  "sql_lower_char c =
     (let n = (of_char c :: nat) in if 65 \<le> n \<and> n \<le> 90 then char_of (n + 32) else c)"

definition sql_lower :: "string \<Rightarrow> string" where
  "sql_lower t = map sql_lower_char t"

text \<open>
  SQLite's \<open>pattern LIKE text\<close> as the code uses it (no \<open>ESCAPE\<close>, \<open>case_sensitive_like\<close>
  left off): \<open>%\<close> stands for any run of characters, \<open>_\<close> for any one character, and every
  other character for itself up to ASCII case. First argument: the pattern.
\<close>

fun sql_like :: "string \<Rightarrow> string \<Rightarrow> bool" where
  "sql_like [] [] = True"
| "sql_like [] (c # cs) = False"
| "sql_like (p # ps) [] = (p = CHR ''%'' \<and> sql_like ps [])"
| "sql_like (p # ps) (c # cs) =
     (if p = CHR ''%'' then sql_like ps (c # cs) \<or> sql_like (p # ps) cs
      else (p = CHR ''_'' \<or> sql_lower_char p = sql_lower_char c) \<and> sql_like ps cs)"

subsection \<open>Decisions\<close>

definition record_decision ::
  "store \<Rightarrow> time \<Rightarrow> string \<Rightarrow> string \<Rightarrow> string \<Rightarrow> string \<Rightarrow> real \<Rightarrow> string list
    \<Rightarrow> error + (string \<times> store)" where
  "record_decision s now hex context decision reasoning confidence tags =
     (let did = ''dec_'' @ take 10 hex in
      if did \<in> set (map d_id (decisions s)) then Inl IntegrityError
      else Inr (did, s\<lparr>decisions := decisions s @
        [\<lparr>d_id = did, d_timestamp = now, d_context = take 2000 context,
          d_decision = take 2000 decision, d_reasoning = take 2000 reasoning,
          d_confidence = max 0 (min 1 confidence), d_outcome = [],
          d_outcome_score = 0, d_resolved = False, d_tags = tags\<rparr>]\<rparr>))"

definition record_outcome :: "store \<Rightarrow> string \<Rightarrow> string \<Rightarrow> real \<Rightarrow> bool \<times> store" where
  "record_outcome s decision_id outcome score =
     (let rowcount = length (filter (\<lambda>d. d_id d = decision_id) (decisions s)) in
      (rowcount > 0,
       s\<lparr>decisions := map (\<lambda>d. if d_id d = decision_id
            then d\<lparr>d_outcome := take 2000 outcome,
                   d_outcome_score := max (- 1) (min 1 score),
                   d_resolved := True\<rparr>
            else d) (decisions s)\<rparr>))"

definition get_recent_decisions :: "store \<Rightarrow> int \<Rightarrow> bool \<Rightarrow> decision list" where
  "get_recent_decisions s limit resolved_only =
     sql_limit limit (order_by_desc d_timestamp
       (if resolved_only then filter d_resolved (decisions s) else decisions s))"

text \<open>
  \<open>get_relevant_context\<close>. The statement has one \<open>LOWER(context) LIKE ?\<close> for every word, twice
  (in the \<open>relevance\<close> column and in the \<open>WHERE\<close>), and the \<open>LIMIT ?\<close>; the parameters are
  built from \<open>words[:10]\<close>. The i-th placeholder of a copy is bound to the i-th parameter.
  The column \<open>relevance\<close> counts the one row of \<open>SELECT 1 WHERE ...\<close> and is 1 on every row
  the \<open>WHERE\<close> lets through.
\<close>

definition get_relevant_context :: "store \<Rightarrow> string \<Rightarrow> int \<Rightarrow> error + (decision \<times> nat) list" where
  "get_relevant_context s situation limit =
     (let words = map py_lower (filter (\<lambda>w. length w \<ge> 3) (py_split situation)) in
      if words = [] then Inr []
      else
        let placeholders = length words + length words + 1;
            params = map (\<lambda>w. ''%'' @ w @ ''%'') (take 10 words);
            bound = length params + length params + 1
        in if placeholders \<noteq> bound then Inl ProgrammingError
           else Inr (map (\<lambda>d. (d, 1))
             (sql_limit limit (order_by_desc d_timestamp
               (filter (\<lambda>d. \<exists>p \<in> set params. sql_like p (sql_lower (d_context d)))
                 (decisions s))))))"

definition search_decisions :: "store \<Rightarrow> string \<Rightarrow> int \<Rightarrow> decision list" where
  "search_decisions s query limit =
     (let pattern = ''%'' @ query @ ''%'' in
      sql_limit limit (order_by_desc d_timestamp
        (filter (\<lambda>d. sql_like pattern (d_context d) \<or> sql_like pattern (d_decision d))
          (decisions s))))"

subsection \<open>Patterns\<close>

definition add_pattern ::
  "store \<Rightarrow> time \<Rightarrow> string \<Rightarrow> string \<Rightarrow> string \<Rightarrow> int \<Rightarrow> real \<Rightarrow> string list
    \<Rightarrow> error + (string \<times> store)" where
  "add_pattern s now hex pattern_type description evidence_count confidence tags =
     (case find (\<lambda>p. p_pattern_type p = pattern_type \<and> p_description p = description \<and> p_active p)
             (patterns s) of
        Some existing \<Rightarrow>
          let new_count = p_evidence_count existing + evidence_count;
              new_conf = min 0.99 (p_confidence existing + 0.05)
          in Inr (p_id existing,
               s\<lparr>patterns := map (\<lambda>p. if p_id p = p_id existing
                    then p\<lparr>p_evidence_count := new_count, p_confidence := new_conf,
                           p_updated_at := now\<rparr>
                    else p) (patterns s)\<rparr>)
      | None \<Rightarrow>
          let pid = ''pat_'' @ take 10 hex in
          if pid \<in> set (map p_id (patterns s)) then Inl IntegrityError
          else Inr (pid, s\<lparr>patterns := patterns s @
            [\<lparr>p_id = pid, p_pattern_type = take 100 pattern_type,
              p_description = take 1000 description, p_evidence_count = evidence_count,
              p_confidence = max 0 (min 1 confidence), p_active = True,
              p_created_at = now, p_updated_at = now, p_tags = tags\<rparr>]\<rparr>))"

text \<open>
  \<open>get_active_patterns\<close>: the filters are added when the argument is truthy (a type that is
  neither \<open>None\<close> nor empty, a positive minimum).
\<close>

definition get_active_patterns :: "store \<Rightarrow> string option \<Rightarrow> real \<Rightarrow> pattern list" where
  "get_active_patterns s pattern_type min_confidence =
     order_by_desc (\<lambda>p. (p_confidence p, p_evidence_count p))
       (filter (\<lambda>p. p_active p
            \<and> (case pattern_type of None \<Rightarrow> True
                | Some t \<Rightarrow> t = [] \<or> p_pattern_type p = t)
            \<and> (min_confidence > 0 \<longrightarrow> p_confidence p \<ge> min_confidence))
          (patterns s))"

definition deactivate_pattern :: "store \<Rightarrow> string \<Rightarrow> bool \<times> store" where
  "deactivate_pattern s pattern_id =
     (let rowcount = length (filter (\<lambda>p. p_id p = pattern_id) (patterns s)) in
      (rowcount > 0,
       s\<lparr>patterns := map (\<lambda>p. if p_id p = pattern_id then p\<lparr>p_active := False\<rparr> else p)
            (patterns s)\<rparr>))"

subsection \<open>Knowledge\<close>

definition set_knowledge ::
  "store \<Rightarrow> time \<Rightarrow> string \<Rightarrow> string \<Rightarrow> string \<Rightarrow> string \<Rightarrow> string \<Rightarrow> int
    \<Rightarrow> error + (string \<times> store)" where
  "set_knowledge s now hex category key value source ttl_hours =
     (let expires = (if ttl_hours > 0 then Some (now + ttl_hours * 3600000000) else None) in
      case find (\<lambda>k. k_category k = category \<and> k_key k = key) (knowledge_rows s) of
        Some existing \<Rightarrow>
          Inr (k_id existing,
            s\<lparr>knowledge_rows := map (\<lambda>k. if k_id k = k_id existing
                 then k\<lparr>k_value := take 5000 value, k_source := take 200 source,
                        k_ttl_hours := ttl_hours, k_created_at := now, k_expires_at := expires\<rparr>
                 else k) (knowledge_rows s)\<rparr>)
      | None \<Rightarrow>
          let kid = ''kn_'' @ take 10 hex in
          if kid \<in> set (map k_id (knowledge_rows s)) then Inl IntegrityError
          else Inr (kid, s\<lparr>knowledge_rows := knowledge_rows s @
            [\<lparr>k_id = kid, k_category = take 100 category, k_key = take 200 key,
              k_value = take 5000 value, k_source = take 200 source, k_ttl_hours = ttl_hours,
              k_created_at = now, k_expires_at = expires\<rparr>]\<rparr>))"

definition expired :: "time \<Rightarrow> knowledge \<Rightarrow> bool" where
  "expired now k = (case k_expires_at k of None \<Rightarrow> False | Some e \<Rightarrow> e < now)"

definition get_knowledge ::
  "store \<Rightarrow> time \<Rightarrow> string option \<Rightarrow> string option \<Rightarrow> knowledge list \<times> store" where
  "get_knowledge s now category key =
     (let s' = s\<lparr>knowledge_rows := filter (\<lambda>k. \<not> expired now k) (knowledge_rows s)\<rparr> in
      (order_by_desc k_created_at
         (filter (\<lambda>k. (case category of None \<Rightarrow> True | Some c \<Rightarrow> c = [] \<or> k_category k = c)
                   \<and> (case key of None \<Rightarrow> True | Some x \<Rightarrow> x = [] \<or> k_key k = x))
            (knowledge_rows s')),
       s'))"

subsection \<open>Stats\<close>

text \<open>
  The counters of \<open>get_stats\<close> (the derived rates, the seven-day count and the file size
  are not read by the miner and are left out).
\<close>

record stats =
  total_decisions :: nat
  resolved_decisions :: nat
  unresolved_decisions :: nat
  active_patterns :: nat
  total_knowledge :: nat
  win_count :: nat
  loss_count :: nat

definition get_stats :: "store \<Rightarrow> stats" where
  "get_stats s =
     \<lparr>total_decisions = length (decisions s),
      resolved_decisions = length (filter d_resolved (decisions s)),
      unresolved_decisions = length (decisions s) - length (filter d_resolved (decisions s)),
      active_patterns = length (filter p_active (patterns s)),
      total_knowledge = length (knowledge_rows s),
      win_count = length (filter (\<lambda>d. d_resolved d \<and> d_outcome_score d > 0) (decisions s)),
      loss_count = length (filter (\<lambda>d. d_resolved d \<and> d_outcome_score d < 0) (decisions s))\<rparr>"

section \<open>The pattern miner\<close>

subsection \<open>The miner's floats\<close>

text \<open>
  The miner decides by comparing quotients of counters with float literals, and it writes
  rounded percentages into the descriptions \<open>add_pattern\<close> matches on: here the result of
  each float operation is the double the program computes. \<open>fl x\<close> is the binary64 number
  nearest to \<open>x\<close>, a tie going to the even mantissa: the exponent \<open>binexp\<close> of the magnitude
  (at least -1022, where the subnormal numbers begin), a unit in the last place 52 binary
  places below it, and the magnitude rounded to a multiple of that unit. (No value the
  miner rounds exceeds 100, so the overflow to infinity is not modelled.) A float literal
  \<open>c\<close> of the source is \<open>fl c\<close>; the true division of two ints is correctly rounded, as are
  the difference and the product of two floats. No denominator of the miner is 0.
\<close>

definition round_half_even :: "real \<Rightarrow> int" where
  "round_half_even x =
     (let f = \<lfloor>x\<rfloor>; r = x - of_int f in
      if r < 1 / 2 then f else if r > 1 / 2 then f + 1 else if even f then f else f + 1)"

function binexp_down :: "int \<Rightarrow> real \<Rightarrow> int" where
  "binexp_down e x = (if x < 1 \<and> - 1022 < e then binexp_down (e - 1) (2 * x) else e)"
  by pat_completeness auto
termination
  by (relation "measure (\<lambda>(e, x). nat (e + 1022))") auto

function binexp_up :: "int \<Rightarrow> real \<Rightarrow> int" where
  "binexp_up e x = (if 2 \<le> x \<and> e < 1023 then binexp_up (e + 1) (x / 2) else e)"
  by pat_completeness auto
termination
  by (relation "measure (\<lambda>(e, x). nat (1023 - e))") auto

declare binexp_down.simps [simp del] binexp_up.simps [simp del]

definition binexp :: "real \<Rightarrow> int" where
  "binexp x = (if x < 1 then binexp_down 0 x else binexp_up 0 x)"

definition pow2 :: "int \<Rightarrow> real" where
  "pow2 k = (if 0 \<le> k then 2 ^ nat k else 1 / 2 ^ nat (- k))"

definition fl :: "real \<Rightarrow> real" where
  "fl x =
     (if x = 0 then 0
      else let a = \<bar>x\<bar>; u = pow2 (binexp a - 52); r = of_int (round_half_even (a / u)) * u
           in if x < 0 then - r else r)"

definition py_div :: "nat \<Rightarrow> nat \<Rightarrow> real" where
  "py_div a b = fl (real a / real b)"

definition MIN_EVIDENCE :: nat where
  "MIN_EVIDENCE = 3"

definition MIN_CONFIDENCE :: real where
  "MIN_CONFIDENCE = fl 0.55"

subsection \<open>Formatting\<close>

text \<open>The decimal text of a counter, as an f-string renders it.\<close>

fun show_nat :: "nat \<Rightarrow> string" where
  "show_nat n =
     (if n < 10 then [char_of (48 + n)] else show_nat (n div 10) @ [char_of (48 + n mod 10)])"

declare show_nat.simps [simp del]

text \<open>
  The format \<open>{x:.0%}\<close> of a rate \<open>x \<ge> 0\<close>: the float product of \<open>x\<close> and 100, then the
  decimal text of that double with no fractional digit (the nearest integer, a tie going
  to the even one), and the percent sign.
\<close>

definition fmt_pct :: "real \<Rightarrow> string" where
  "fmt_pct x = show_nat (nat (round_half_even (fl (x * 100)))) @ ''%''"

subsection \<open>Dictionaries in insertion order\<close>

text \<open>
  A \<open>defaultdict\<close> (or \<open>Counter\<close>) is an association list in the order the keys were first
  used, as \<open>items()\<close> yields them. \<open>dict_upd k f dflt d\<close> is \<open>d[k] = f(d[k])\<close>, where a
  missing key is first created with the default.
\<close>

fun dict_upd :: "'k \<Rightarrow> ('v \<Rightarrow> 'v) \<Rightarrow> 'v \<Rightarrow> ('k \<times> 'v) list \<Rightarrow> ('k \<times> 'v) list" where
  "dict_upd k f dflt [] = [(k, f dflt)]"
| "dict_upd k f dflt ((k', v) # kvs) =
     (if k' = k then (k', f v) # kvs else (k', v) # dict_upd k f dflt kvs)"

fun dict_get :: "('k \<times> nat) list \<Rightarrow> 'k \<Rightarrow> nat" where
  "dict_get [] k = 0"
| "dict_get ((k', v) # kvs) k = (if k' = k then v else dict_get kvs k)"

text \<open>
  What the miner hands to \<open>add_pattern\<close>: the type, the description, the evidence count
  and the confidence.
\<close>

type_synonym emission = "string \<times> string \<times> int \<times> real"

subsection \<open>Strategy 1: tags\<close>

record tag_counts =
  wins :: nat
  losses :: nat
  total :: nat

definition count_tag :: "real \<Rightarrow> tag_counts \<Rightarrow> tag_counts" where
  "count_tag score c =
     (let c1 = c\<lparr>total := total c + 1\<rparr> in
      if score > 0 then c1\<lparr>wins := wins c1 + 1\<rparr>
      else if score < 0 then c1\<lparr>losses := losses c1 + 1\<rparr>
      else c1)"

definition tag_outcomes :: "decision list \<Rightarrow> (string \<times> tag_counts) list" where
  "tag_outcomes resolved =
     fold (\<lambda>dec acc.
            fold (\<lambda>tag acc'. dict_upd tag (count_tag (d_outcome_score dec))
                     \<lparr>wins = 0, losses = 0, total = 0\<rparr> acc')
              (d_tags dec) acc)
       resolved []"

definition tag_description :: "string \<Rightarrow> real \<Rightarrow> tag_counts \<Rightarrow> string" where
  "tag_description tag wr counts =
     ''Tag '' @ [CHR 0x27] @ tag @ [CHR 0x27] @ '': ''
       @ (if wr \<ge> 0.5 then ''wins'' else ''loses'') @ '' '' @ fmt_pct wr
       @ '' of the time ('' @ show_nat (wins counts) @ ''W/'' @ show_nat (losses counts)
       @ ''L over '' @ show_nat (total counts) @ '' decisions)''"

definition tag_emission :: "string \<times> tag_counts \<Rightarrow> emission list" where
  "tag_emission tc =
     (let tag = fst tc; counts = snd tc in
      if total counts < MIN_EVIDENCE then []
      else
        let wr = py_div (wins counts) (max 1 (wins counts + losses counts)) in
        if wr \<ge> MIN_CONFIDENCE \<or> wr \<le> fl (1 - MIN_CONFIDENCE)
        then [(''tag_performance'', tag_description tag wr counts, int (total counts),
               if wr \<ge> 0.5 then wr else fl (1 - wr))]
        else [])"

definition tag_emissions :: "decision list \<Rightarrow> emission list" where
  "tag_emissions resolved = concat (map tag_emission (tag_outcomes resolved))"

subsection \<open>Strategy 2: keywords\<close>

text \<open>
  \<open>re.findall(r'[a-z][a-z0-9_]+', text)\<close>: scanning from the left, a letter followed by the
  longest non-empty run of letters, digits and underscores; the scan goes on after the
  match, or one character further where there is none.
\<close>

definition is_az :: "char \<Rightarrow> bool" where
  "is_az c = (97 \<le> (of_char c :: nat) \<and> (of_char c :: nat) \<le> 122)"

definition is_word_char :: "char \<Rightarrow> bool" where
  "is_word_char c = (is_az c \<or> (48 \<le> (of_char c :: nat) \<and> (of_char c :: nat) \<le> 57) \<or> c = CHR ''_'')"

function findall_words :: "string \<Rightarrow> string list" where
  "findall_words [] = []"
| "findall_words (c # cs) =
     (if is_az c \<and> takeWhile is_word_char cs \<noteq> []
      then (c # takeWhile is_word_char cs) # findall_words (dropWhile is_word_char cs)
      else findall_words cs)"
  by pat_completeness auto
termination
  by (relation "measure length") (auto simp: length_dropWhile_le less_Suc_eq_le)

definition noise :: "string list" where
  "noise = [''the'', ''and'', ''for'', ''with'', ''from'', ''this'', ''that'', ''was'', ''are'',
            ''has'', ''had'', ''but'', ''not'', ''you'', ''all'', ''can'', ''her'', ''his'',
            ''one'', ''our'', ''out'', ''day'', ''get'', ''got'', ''let'', ''may'', ''say'',
            ''she'', ''too'', ''use'', ''way'', ''who'', ''how'', ''its'', ''did'', ''now'']"

definition extract_keywords :: "string \<Rightarrow> string list" where
  "extract_keywords text =
     filter (\<lambda>w. w \<notin> set noise \<and> length w \<ge> 3) (findall_words (py_lower text))"

definition counter_update :: "string list \<Rightarrow> (string \<times> nat) list \<Rightarrow> (string \<times> nat) list" where
  "counter_update ws counter = fold (\<lambda>w acc. dict_upd w (\<lambda>n. n + 1) 0 acc) ws counter"

definition keyword_counters ::
  "decision list \<Rightarrow> (string \<times> nat) list \<times> (string \<times> nat) list" where
  "keyword_counters resolved =
     fold (\<lambda>dec wl.
            let ws = extract_keywords (d_context dec); score = d_outcome_score dec in
            if score > 0 then (counter_update ws (fst wl), snd wl)
            else if score < 0 then (fst wl, counter_update ws (snd wl))
            else wl)
       resolved ([], [])"

text \<open>
  \<open>set(win_words.keys()) | set(loss_words.keys())\<close>: Python leaves the order in which a set
  is iterated open; the model takes the winning keys first, then the losing keys not yet
  seen.
\<close>

definition all_words :: "(string \<times> nat) list \<Rightarrow> (string \<times> nat) list \<Rightarrow> string list" where
  "all_words win_words loss_words =
     map fst win_words @ filter (\<lambda>w. w \<notin> set (map fst win_words)) (map fst loss_words)"

definition keyword_emission ::
  "(string \<times> nat) list \<Rightarrow> (string \<times> nat) list \<Rightarrow> string \<Rightarrow> emission list" where
  "keyword_emission win_words loss_words word =
     (let w = dict_get win_words word; l = dict_get loss_words word; tot = w + l in
      if tot < MIN_EVIDENCE then []
      else
        let wr = py_div w tot in
        if wr \<ge> fl 0.65
        then [(''keyword_signal'',
               ''Keyword '' @ [CHR 0x27] @ word @ [CHR 0x27] @ '' in context: '' @ fmt_pct wr
                 @ '' win rate ('' @ show_nat w @ ''W/'' @ show_nat l @ ''L)'',
               int tot, wr)]
        else if wr \<le> fl 0.35
        then [(''keyword_signal'',
               ''Keyword '' @ [CHR 0x27] @ word @ [CHR 0x27] @ '' in context: '' @ fmt_pct (fl (1 - wr))
                 @ '' loss rate ('' @ show_nat l @ ''L/'' @ show_nat w @ ''W)'',
               int tot, fl (1 - wr))]
        else [])"

definition keyword_emissions :: "decision list \<Rightarrow> emission list" where
  "keyword_emissions resolved =
     (let wl = keyword_counters resolved in
      concat (map (keyword_emission (fst wl) (snd wl)) (all_words (fst wl) (snd wl))))"

subsection \<open>Strategy 3: calibration\<close>

definition calibration_emissions :: "decision list \<Rightarrow> emission list" where
  "calibration_emissions resolved =
     (let high_conf = filter (\<lambda>d. d_confidence d \<ge> fl 0.7) resolved;
          low_conf = filter (\<lambda>d. d_confidence d < fl 0.4) resolved
      in
        (if length high_conf \<ge> MIN_EVIDENCE
         then let high_wr = py_div (length (filter (\<lambda>d. d_outcome_score d > 0) high_conf))
                              (length high_conf)
              in [(''calibration'',
                   ''High-confidence decisions (>=0.7): actual win rate '' @ fmt_pct high_wr
                     @ '' over '' @ show_nat (length high_conf) @ '' decisions'',
                   int (length high_conf), high_wr)]
         else [])
        @
        (if length low_conf \<ge> MIN_EVIDENCE
         then let low_wr = py_div (length (filter (\<lambda>d. d_outcome_score d > 0) low_conf))
                             (length low_conf)
              in [(''calibration'',
                   ''Low-confidence decisions (<0.4): actual win rate '' @ fmt_pct low_wr
                     @ '' over '' @ show_nat (length low_conf) @ '' decisions'',
                   int (length low_conf), max low_wr (fl (1 - low_wr)))]
         else []))"

subsection \<open>Strategy 4: hour of the day\<close>

text \<open>
  The hour the code parses out of the ISO text, \<open>int(ts.split("T")[1].split(":")[0])\<close>, is
  the hour of the day of the wall-clock reading. An entry of \<open>hour_outcomes\<close> is created
  when a win or a loss is counted, not for a score of 0. The dash of the description
  (U+2014) is written as its three UTF-8 bytes.
\<close>

definition hour_of :: "time \<Rightarrow> nat" where
  "hour_of ts = nat ((ts div 3600000000) mod 24)"

record hour_counts =
  h_wins :: nat
  h_losses :: nat

definition hour_outcomes :: "decision list \<Rightarrow> (nat \<times> hour_counts) list" where
  "hour_outcomes resolved =
     fold (\<lambda>dec acc.
            let hour = hour_of (d_timestamp dec); score = d_outcome_score dec in
            if score > 0
            then dict_upd hour (\<lambda>c. c\<lparr>h_wins := h_wins c + 1\<rparr>) \<lparr>h_wins = 0, h_losses = 0\<rparr> acc
            else if score < 0
            then dict_upd hour (\<lambda>c. c\<lparr>h_losses := h_losses c + 1\<rparr>) \<lparr>h_wins = 0, h_losses = 0\<rparr> acc
            else acc)
       resolved []"

definition temporal_emission :: "nat \<times> hour_counts \<Rightarrow> emission list" where
  "temporal_emission hc =
     (let hour = fst hc; counts = snd hc; tot = h_wins counts + h_losses counts in
      if tot < MIN_EVIDENCE then []
      else
        let wr = py_div (h_wins counts) tot in
        if wr \<ge> fl 0.7 \<or> wr \<le> fl 0.3
        then
          let period = (if 6 \<le> hour \<and> hour < 12 then ''morning''
                        else if 12 \<le> hour \<and> hour < 18 then ''afternoon''
                        else if 18 \<le> hour \<and> hour < 22 then ''evening'' else ''night'');
              result = (if wr \<ge> 0.5 then ''favorable'' else ''unfavorable'')
          in [(''temporal'',
               ''Hour '' @ show_nat hour @ '':00 ('' @ period @ ''): '' @ result @ '' ''
                 @ [CHR 0xE2, CHR 0x80, CHR 0x94] @ '' '' @ fmt_pct wr @ '' WR (''
                 @ show_nat (h_wins counts) @ ''W/'' @ show_nat (h_losses counts) @ ''L)'',
               int tot, if wr \<ge> 0.5 then wr else fl (1 - wr))]
        else [])"

definition temporal_emissions :: "decision list \<Rightarrow> emission list" where
  "temporal_emissions resolved = concat (map temporal_emission (hour_outcomes resolved))"

subsection \<open>The pass\<close>

text \<open>
  The four strategies read the list \<open>resolved\<close> only, which is loaded before the first of
  them runs: what each hands to \<open>add_pattern\<close>, and in which order, is a function of that
  list. \<open>emit\<close> is one \<open>mem.add_pattern(...)\<close> followed by \<open>new_patterns.append(desc)\<close>; an
  exception of \<open>add_pattern\<close> ends the pass. The environment \<open>env\<close> gives, to the call
  made when \<open>new_patterns\<close> has \<open>n\<close> entries, the clock reading and the \<open>uuid4\<close> hex text
  that call is given.
\<close>

fun emit ::
  "(nat \<Rightarrow> time \<times> string) \<Rightarrow> emission \<Rightarrow> error + (store \<times> string list)
    \<Rightarrow> error + (store \<times> string list)" where
  "emit env e (Inl err) = Inl err"
| "emit env (ptype, desc, evidence, conf) (Inr (s, new_patterns)) =
     (case add_pattern s (fst (env (length new_patterns))) (snd (env (length new_patterns)))
             ptype desc evidence conf [] of
        Inl err \<Rightarrow> Inl err
      | Inr (pid, s') \<Rightarrow> Inr (s', new_patterns @ [desc]))"

definition strategies :: "decision list \<Rightarrow> emission list" where
  "strategies resolved =
     tag_emissions resolved @ keyword_emissions resolved @ calibration_emissions resolved
       @ temporal_emissions resolved"

definition prune_step :: "pattern \<Rightarrow> store \<times> nat \<Rightarrow> store \<times> nat" where
  "prune_step p sp =
     (if p_evidence_count p \<le> 1 \<and> p_confidence p < 0.5
      then (snd (deactivate_pattern (fst sp) (p_id p)), snd sp + 1)
      else sp)"

definition prune :: "store \<Rightarrow> store \<times> nat" where
  "prune s = fold prune_step (get_active_patterns s None 0) (s, 0)"

datatype mine_result =
  Skipped (r_reason: string) (r_resolved: nat)
| Mined (r_resolved_decisions: nat) (r_patterns_extracted: nat) (r_patterns_pruned: nat)
    (r_total_active_patterns: int) (r_new_patterns: "string list")

definition mine_agent :: "(nat \<Rightarrow> time \<times> string) \<Rightarrow> store \<Rightarrow> error + (mine_result \<times> store)" where
  "mine_agent env s =
     (let st = get_stats s in
      if resolved_decisions st < MIN_EVIDENCE
      then Inr (Skipped ''insufficient_data'' (resolved_decisions st), s)
      else
        let resolved = get_recent_decisions s 500 True in
        case fold (emit env) (strategies resolved) (Inr (s, [])) of
          Inl err \<Rightarrow> Inl err
        | Inr (s1, new_patterns) \<Rightarrow>
            let sp = prune s1 in
            Inr (Mined (resolved_decisions st) (length new_patterns) (snd sp)
                   (int (active_patterns st) + int (length new_patterns) - int (snd sp))
                   new_patterns,
                 fst sp))"

text \<open>The condition under which the pass deactivates an active pattern.\<close>

definition weak :: "pattern \<Rightarrow> bool" where
  "weak p = (p_evidence_count p \<le> 1 \<and> p_confidence p < 0.5)"

text \<open>
  The ids a pass may insert under: one per call of \<open>add_pattern\<close> it makes, from the hex
  text that call is given. \<open>fresh_ids\<close> says that they are pairwise different and that
  none of them is already the id of a stored pattern (what \<open>uuid4\<close> gives but for a
  collision of the ten hex digits kept).
\<close>

definition pattern_ids :: "(nat \<Rightarrow> time \<times> string) \<Rightarrow> nat \<Rightarrow> string list" where
  "pattern_ids env m = map (\<lambda>i. ''pat_'' @ take 10 (snd (env i))) [0 ..< m]"

definition fresh_ids :: "(nat \<Rightarrow> time \<times> string) \<Rightarrow> store \<Rightarrow> bool" where
  "fresh_ids env s =
     (let ids = pattern_ids env (length (strategies (get_recent_decisions s 500 True)))
      in distinct ids \<and> list_all (\<lambda>i. i \<notin> set (map p_id (patterns s))) ids)"

section \<open>The tag counts in closed form\<close>

text \<open>
  Notions for the proofs about strategy 1: the observations the two loops make (one per
  decision and tag, with the decision's score), the loop body on one observation, and
  the counts of one tag over a list of observations.
\<close>

definition tag_obs :: "decision list \<Rightarrow> (string \<times> real) list" where
  "tag_obs resolved = concat (map (\<lambda>d. map (\<lambda>t. (t, d_outcome_score d)) (d_tags d)) resolved)"

definition tag_step :: "string \<times> real \<Rightarrow> (string \<times> tag_counts) list \<Rightarrow> (string \<times> tag_counts) list" where
  "tag_step ob acc = dict_upd (fst ob) (count_tag (snd ob)) \<lparr>wins = 0, losses = 0, total = 0\<rparr> acc"

definition tally :: "string \<Rightarrow> (string \<times> real) list \<Rightarrow> tag_counts" where
  "tally t obs =
     \<lparr>wins = length (filter (\<lambda>ob. fst ob = t \<and> snd ob > 0) obs),
      losses = length (filter (\<lambda>ob. fst ob = t \<and> snd ob < 0) obs),
      total = length (filter (\<lambda>ob. fst ob = t) obs)\<rparr>"

definition add_counts :: "tag_counts \<Rightarrow> tag_counts \<Rightarrow> tag_counts" where
  "add_counts a b = \<lparr>wins = wins a + wins b, losses = losses a + losses b, total = total a + total b\<rparr>"

section \<open>Well-formed stores\<close>

text \<open>
  What the schema and the insertions guarantee of every store the operations build from
  the empty one: the \<open>PRIMARY KEY\<close> columns hold no value twice, and the text columns that
  an insertion cuts are within their bounds.
\<close>

definition wf_store :: "store \<Rightarrow> bool" where
  "wf_store s =
     (distinct (map d_id (decisions s)) \<and> distinct (map p_id (patterns s))
      \<and> distinct (map k_id (knowledge_rows s))
      \<and> list_all (\<lambda>p. length (p_pattern_type p) \<le> 100 \<and> length (p_description p) \<le> 1000)
           (patterns s)
      \<and> list_all (\<lambda>k. length (k_category k) \<le> 100 \<and> length (k_key k) \<le> 200)
           (knowledge_rows s))"

definition empty_store :: store where
  "empty_store = \<lparr>decisions = [], patterns = [], knowledge_rows = []\<rparr>"

text \<open>The store an operation leaves, and the store itself where the operation raised.\<close>

definition store_after :: "store \<Rightarrow> error + ('a \<times> store) \<Rightarrow> store" where
  "store_after s r = (case r of Inl err \<Rightarrow> s | Inr (x, s') \<Rightarrow> s')"

definition returned :: "error + ('a \<times> store) \<Rightarrow> 'a option" where
  "returned r = (case r of Inl err \<Rightarrow> None | Inr (x, s') \<Rightarrow> Some x)"

section \<open>The decision-state invariant\<close>

text \<open>A decision that is not resolved has the empty outcome and the score 0.\<close>

definition decision_inv :: "store \<Rightarrow> bool" where
  "decision_inv s =
     list_all (\<lambda>d. \<not> d_resolved d \<longrightarrow> d_outcome d = [] \<and> d_outcome_score d = 0) (decisions s)"

section \<open>Example stores\<close>

definition dec0 :: decision where
  "dec0 = \<lparr>d_id = ''dec_0000000001'', d_timestamp = 1000, d_context = ''BTC high vol'',
           d_decision = ''Take YES position'', d_reasoning = ''F&G=25, vol spike'',
           d_confidence = 0.7, d_outcome = [], d_outcome_score = 0, d_resolved = False,
           d_tags = []\<rparr>"

definition store0 :: store where
  "store0 = \<lparr>decisions = [dec0], patterns = [], knowledge_rows = []\<rparr>"

definition hex0 :: string where
  "hex0 = ''0123456789abcdef0123456789abcdef''"

text \<open>The empty store after \<open>set_knowledge("risk", "btc_vol", "high", "feed", ttl)\<close> at time 0.\<close>

definition store_fact :: "int \<Rightarrow> store" where
  "store_fact ttl =
     store_after empty_store (set_knowledge empty_store 0 hex0 ''risk'' ''btc_vol'' ''high'' ''feed'' ttl)"

definition dec_btc :: decision where
  "dec_btc = \<lparr>d_id = ''dec_00000000a1'', d_timestamp = 2000,
     d_context = ''BTC dropped 5% in high volatility'', d_decision = ''Hold'',
     d_reasoning = [], d_confidence = 0.5, d_outcome = [], d_outcome_score = 0,
     d_resolved = False, d_tags = []\<rparr>"

definition dec_eth :: decision where
  "dec_eth = \<lparr>d_id = ''dec_00000000a2'', d_timestamp = 3000,
     d_context = ''ETH staking rewards'', d_decision = ''Stake'',
     d_reasoning = [], d_confidence = 0.5, d_outcome = [], d_outcome_score = 0,
     d_resolved = False, d_tags = []\<rparr>"

definition store_ctx :: store where
  "store_ctx = \<lparr>decisions = [dec_btc, dec_eth], patterns = [], knowledge_rows = []\<rparr>"

definition situation12 :: string where
  "situation12 = ''BTC high volatility trade after the Fed rate decision surprised markets today''"

text \<open>The empty store after \<open>add_pattern("trend", "X", 1, 0.5)\<close> at time 10.\<close>

definition store_trend :: store where
  "store_trend = store_after empty_store (add_pattern empty_store 10 hex0 ''trend'' ''X'' 1 0.5 [])"

text \<open>\<open>store0\<close> after a \<open>record_decision\<close> at time 2000 with the confidence 1.7.\<close>

definition store_rec :: store where
  "store_rec = store_after store0
     (record_decision store0 2000 hex0 ''ETH range'' ''Skip'' ''no edge'' 1.7 [''range''])"

text \<open>
  Resolved decisions tagged \<open>breakout\<close>, an environment for the pass, and a store with three
  wins and two hand-made patterns of one observation each.
\<close>

definition mk_dec :: "nat \<Rightarrow> real \<Rightarrow> decision" where
  "mk_dec n score =
     \<lparr>d_id = ''dec_'' @ show_nat n, d_timestamp = int n, d_context = ''BTC breakout'',
      d_decision = ''Take YES'', d_reasoning = [], d_confidence = 0.5, d_outcome = ''done'',
      d_outcome_score = score, d_resolved = True, d_tags = [''breakout'']\<rparr>"

definition env0 :: "nat \<Rightarrow> time \<times> string" where
  "env0 n = (100 + int n, show_nat n @ ''aaaaaaaaaa'')"

definition pat_weak :: pattern where
  "pat_weak = \<lparr>p_id = ''pat_00000000w1'', p_pattern_type = ''manual'',
     p_description = ''Avoid Mondays'', p_evidence_count = 1, p_confidence = 0.3,
     p_active = True, p_created_at = 1, p_updated_at = 1, p_tags = []\<rparr>"

definition pat_strong :: pattern where
  "pat_strong = \<lparr>p_id = ''pat_00000000w2'', p_pattern_type = ''manual'',
     p_description = ''Prefer liquid markets'', p_evidence_count = 1, p_confidence = 0.6,
     p_active = True, p_created_at = 2, p_updated_at = 2, p_tags = []\<rparr>"

definition store_prune :: store where
  "store_prune =
     \<lparr>decisions = map (\<lambda>n. mk_dec n 0.5) [0..<3], patterns = [pat_weak, pat_strong],
      knowledge_rows = []\<rparr>"


definition new_pattern :: "nat \<Rightarrow> string \<Rightarrow> string \<Rightarrow> int \<Rightarrow> real \<Rightarrow> pattern" where
  "new_pattern n ptype desc evidence conf =
     \<lparr>p_id = ''pat_'' @ take 10 (snd (env0 n)), p_pattern_type = ptype, p_description = desc,
      p_evidence_count = evidence, p_confidence = conf, p_active = True,
      p_created_at = fst (env0 n), p_updated_at = fst (env0 n), p_tags = []\<rparr>"


definition news_prune :: "string list" where
  "news_prune =
     [''Tag '' @ [CHR 0x27] @ ''breakout'' @ [CHR 0x27] @ '': wins 100% of the time (3W/0L over 3 decisions)'',
      ''Keyword '' @ [CHR 0x27] @ ''btc'' @ [CHR 0x27] @ '' in context: 100% win rate (3W/0L)'',
      ''Keyword '' @ [CHR 0x27] @ ''breakout'' @ [CHR 0x27] @ '' in context: 100% win rate (3W/0L)'',
      ''Hour 0:00 (night): favorable '' @ [CHR 0xE2, CHR 0x80, CHR 0x94] @ '' 100% WR (3W/0L)'']"

definition store_pruned :: store where
  "store_pruned =
     store_prune\<lparr>patterns :=
       [pat_weak\<lparr>p_active := False\<rparr>, pat_strong,
        new_pattern 0 ''tag_performance'' (news_prune ! 0) 3 1,
        new_pattern 1 ''keyword_signal'' (news_prune ! 1) 3 1,
        new_pattern 2 ''keyword_signal'' (news_prune ! 2) 3 1,
        new_pattern 3 ''temporal'' (news_prune ! 3) 3 1]\<rparr>"

text \<open>
  Ten resolved decisions tagged \<open>breakout\<close>, eight won and two lost, and the store the
  pass leaves; two such decisions; three decisions tagged \<open>flat\<close> with the score 0.
\<close>

definition store_breakout :: store where
  "store_breakout =
     \<lparr>decisions = map (\<lambda>n. mk_dec n 0.5) [0..<8] @ map (\<lambda>n. mk_dec n (- 0.5)) [8..<10],
      patterns = [], knowledge_rows = []\<rparr>"

definition news_breakout :: "string list" where
  "news_breakout =
     [''Tag '' @ [CHR 0x27] @ ''breakout'' @ [CHR 0x27] @ '': wins 80% of the time (8W/2L over 10 decisions)'',
      ''Keyword '' @ [CHR 0x27] @ ''btc'' @ [CHR 0x27] @ '' in context: 80% win rate (8W/2L)'',
      ''Keyword '' @ [CHR 0x27] @ ''breakout'' @ [CHR 0x27] @ '' in context: 80% win rate (8W/2L)'',
      ''Hour 0:00 (night): favorable '' @ [CHR 0xE2, CHR 0x80, CHR 0x94] @ '' 80% WR (8W/2L)'']"

definition store_mined :: store where
  "store_mined =
     store_breakout\<lparr>patterns :=
       [new_pattern 0 ''tag_performance'' (news_breakout ! 0) 10 (fl 0.8),
        new_pattern 1 ''keyword_signal'' (news_breakout ! 1) 10 (fl 0.8),
        new_pattern 2 ''keyword_signal'' (news_breakout ! 2) 10 (fl 0.8),
        new_pattern 3 ''temporal'' (news_breakout ! 3) 10 (fl 0.8)]\<rparr>"

definition store_two :: store where
  "store_two =
     \<lparr>decisions = map (\<lambda>n. mk_dec n 0.5) [0..<2], patterns = [], knowledge_rows = []\<rparr>"

definition store_flat :: store where
  "store_flat =
     \<lparr>decisions = map (\<lambda>n. (mk_dec n 0)\<lparr>d_tags := [''flat'']\<rparr>) [0..<3],
      patterns = [], knowledge_rows = []\<rparr>"

definition desc_flat :: string where
  "desc_flat = ''Tag '' @ [CHR 0x27] @ ''flat'' @ [CHR 0x27]
     @ '': loses 0% of the time (0W/0L over 3 decisions)''"

section \<open>Theorems\<close>

subsection \<open>Knowledge: insertion and update\<close>

lemma set_knowledge_insert:
  assumes "find (\<lambda>k. k_category k = category \<and> k_key k = key) (knowledge_rows s) = None"
    and "set_knowledge s now hex category key value source ttl = Inr (kid, s')"
  shows "kid = ''kn_'' @ take 10 hex \<and> kid \<notin> set (map k_id (knowledge_rows s))
     \<and> knowledge_rows s' = knowledge_rows s @
          [\<lparr>k_id = kid, k_category = take 100 category, k_key = take 200 key,
            k_value = take 5000 value, k_source = take 200 source, k_ttl_hours = ttl,
            k_created_at = now,
            k_expires_at = (if ttl > 0 then Some (now + ttl * 3600000000) else None)\<rparr>]
     \<and> decisions s' = decisions s \<and> patterns s' = patterns s"
  using assms unfolding set_knowledge_def Let_def
  by (auto split: if_splits)

lemma set_knowledge_update:
  assumes "find (\<lambda>k. k_category k = category \<and> k_key k = key) (knowledge_rows s) = Some e"
    and "set_knowledge s now hex category key value source ttl = Inr (kid, s')"
  shows "kid = k_id e
     \<and> knowledge_rows s' = map (\<lambda>k. if k_id k = k_id e
                 then k\<lparr>k_value := take 5000 value, k_source := take 200 source,
                        k_ttl_hours := ttl, k_created_at := now,
                        k_expires_at := (if ttl > 0 then Some (now + ttl * 3600000000) else None)\<rparr>
                 else k) (knowledge_rows s)
     \<and> decisions s' = decisions s \<and> patterns s' = patterns s"
  using assms unfolding set_knowledge_def Let_def
  by (auto split: if_splits)


lemma set_order_by_desc: "set (order_by_desc f xs) = set xs"
  by (simp add: order_by_desc_def)

lemma set_knowledge_row:
  assumes ok: "set_knowledge s now hex category key value source ttl = Inr (kid, s')"
  shows "(\<exists>k \<in> set (knowledge_rows s'). k_id k = kid)
     \<and> (\<forall>k \<in> set (knowledge_rows s'). k_id k = kid \<longrightarrow>
           k_value k = take 5000 value
           \<and> k_expires_at k = (if ttl > 0 then Some (now + ttl * 3600000000) else None))"
proof (cases "find (\<lambda>k. k_category k = category \<and> k_key k = key) (knowledge_rows s)")
  case None
  note ins = set_knowledge_insert [OF None ok, THEN conjunct2]
  from ins have fresh: "\<forall>k \<in> set (knowledge_rows s). k_id k \<noteq> kid"
    by auto
  from ins have rows: "knowledge_rows s' = knowledge_rows s @
          [\<lparr>k_id = kid, k_category = take 100 category, k_key = take 200 key,
            k_value = take 5000 value, k_source = take 200 source, k_ttl_hours = ttl,
            k_created_at = now,
            k_expires_at = (if ttl > 0 then Some (now + ttl * 3600000000) else None)\<rparr>]"
    by simp
  show ?thesis
    unfolding rows using fresh by auto
next
  case (Some e)
  then have e: "e \<in> set (knowledge_rows s)"
    by (auto simp: find_Some_iff)
  define upd :: "knowledge \<Rightarrow> knowledge" where "upd = (\<lambda>k. if k_id k = k_id e
                 then k\<lparr>k_value := take 5000 value, k_source := take 200 source,
                        k_ttl_hours := ttl, k_created_at := now,
                        k_expires_at := (if ttl > 0 then Some (now + ttl * 3600000000) else None)\<rparr>
                 else k)"
  from set_knowledge_update [OF Some ok]
  have kid: "kid = k_id e" and rows: "knowledge_rows s' = map upd (knowledge_rows s)"
    by (simp_all add: upd_def)
  have id_upd: "\<And>k. k_id (upd k) = k_id k"
    by (simp add: upd_def)
  have "upd e \<in> set (knowledge_rows s')"
    unfolding rows using e by simp
  then have ex: "\<exists>k \<in> set (knowledge_rows s'). k_id k = kid"
    using id_upd kid by blast
  have all: "k_value k = take 5000 value
           \<and> k_expires_at k = (if ttl > 0 then Some (now + ttl * 3600000000) else None)"
    if "k \<in> set (knowledge_rows s')" "k_id k = kid" for k
  proof -
    from that(1) obtain k0 where k0: "k0 \<in> set (knowledge_rows s)" "k = upd k0"
      unfolding rows by auto
    with that(2) id_upd kid have "k_id k0 = k_id e" by simp
    with k0(2) show ?thesis by (simp add: upd_def)
  qed
  from ex all show ?thesis by blast
qed

subsection \<open>Ordering and limit\<close>

lemma sorted_order_by_desc:
  "sorted_wrt (\<lambda>a b. f b \<le> f a) (order_by_desc f xs)"
proof -
  have "sorted (map f (sort_key f xs))" by simp
  then have "sorted_wrt (\<lambda>a b. f a \<le> f b) (sort_key f xs)"
    by (simp add: sorted_map)
  then show ?thesis
    by (simp add: order_by_desc_def sorted_wrt_rev)
qed

lemma length_order_by_desc: "length (order_by_desc f xs) = length xs"
  by (simp add: order_by_desc_def)

lemma set_sql_limit: "set (sql_limit n xs) \<subseteq> set xs"
  by (auto simp: sql_limit_def dest: in_set_takeD)

lemma length_sql_limit: "0 \<le> n \<Longrightarrow> length (sql_limit n xs) \<le> nat n"
  by (simp add: sql_limit_def)

lemma sql_limit_all: "n < 0 \<or> length xs \<le> nat n \<Longrightarrow> sql_limit n xs = xs"
  by (auto simp: sql_limit_def)

lemma sorted_wrt_sql_limit: "sorted_wrt R xs \<Longrightarrow> sorted_wrt R (sql_limit n xs)"
  by (simp add: sql_limit_def sorted_wrt_take)

lemma sql_limit_first:
  assumes "sorted_wrt R xs" "x \<in> set (sql_limit n xs)" "y \<in> set xs" "y \<notin> set (sql_limit n xs)"
  shows "R x y"
proof (cases "n < 0")
  case True
  with assms show ?thesis by (simp add: sql_limit_def)
next
  case False
  then have l: "sql_limit n xs = take (nat n) xs" by (simp add: sql_limit_def)
  have "xs = take (nat n) xs @ drop (nat n) xs" by simp
  with assms(1) have "\<forall>a \<in> set (take (nat n) xs). \<forall>b \<in> set (drop (nat n) xs). R a b"
    by (metis sorted_wrt_append)
  moreover from assms(3,4) l have "y \<in> set (drop (nat n) xs)"
    by (metis Un_iff append_take_drop_id set_append)
  ultimately show ?thesis using assms(2) l by auto
qed

subsection \<open>The pattern match of \<open>LIKE\<close>\<close>

lemma sql_like_percent: "sql_like ''%'' t"
  by (induction t) auto

lemma sql_like_percent_Cons:
  "sql_like (CHR ''%'' # p) t \<longleftrightarrow> (\<exists>u v. t = u @ v \<and> sql_like p v)"
proof (induction t)
  case Nil
  then show ?case by simp
next
  case (Cons c cs)
  show ?case
  proof
    assume "sql_like (CHR ''%'' # p) (c # cs)"
    then consider "sql_like p (c # cs)" | "sql_like (CHR ''%'' # p) cs" by auto
    then show "\<exists>u v. c # cs = u @ v \<and> sql_like p v"
    proof cases
      case 1
      then show ?thesis by (metis append_Nil)
    next
      case 2
      with Cons obtain u v where "cs = u @ v" "sql_like p v" by auto
      then show ?thesis by (metis append_Cons)
    qed
  next
    assume "\<exists>u v. c # cs = u @ v \<and> sql_like p v"
    then obtain u v where uv: "c # cs = u @ v" "sql_like p v" by auto
    show "sql_like (CHR ''%'' # p) (c # cs)"
    proof (cases u)
      case Nil
      with uv have "sql_like p (c # cs)" by simp
      then show ?thesis by simp
    next
      case (Cons a u')
      with uv have "cs = u' @ v" by simp
      with uv(2) Cons.IH have "sql_like (CHR ''%'' # p) cs" by auto
      then show ?thesis by simp
    qed
  qed
qed

lemma sql_like_plain_percent:
  assumes "CHR ''%'' \<notin> set q" "CHR ''_'' \<notin> set q"
  shows "sql_like (q @ ''%'') t \<longleftrightarrow> (\<exists>w v. t = w @ v \<and> sql_lower w = sql_lower q)"
  using assms
proof (induction q arbitrary: t)
  case Nil
  then show ?case by (simp add: sql_like_percent sql_lower_def)
next
  case (Cons a q)
  show ?case
  proof (cases t)
    case Nil
    with Cons.prems show ?thesis by (auto simp: sql_lower_def)
  next
    case (Cons c cs)
    have "sql_like ((a # q) @ ''%'') (c # cs) \<longleftrightarrow>
        sql_lower_char a = sql_lower_char c \<and> sql_like (q @ ''%'') cs"
      using Cons.prems by auto
    also have "\<dots> \<longleftrightarrow> sql_lower_char a = sql_lower_char c
        \<and> (\<exists>w v. cs = w @ v \<and> sql_lower w = sql_lower q)"
      using Cons.IH Cons.prems by auto
    also have "\<dots> \<longleftrightarrow> (\<exists>w v. c # cs = w @ v \<and> sql_lower w = sql_lower (a # q))"
    proof
      assume "sql_lower_char a = sql_lower_char c
        \<and> (\<exists>w v. cs = w @ v \<and> sql_lower w = sql_lower q)"
      then obtain w v where "cs = w @ v" "sql_lower w = sql_lower q"
        "sql_lower_char a = sql_lower_char c" by auto
      then show "\<exists>w v. c # cs = w @ v \<and> sql_lower w = sql_lower (a # q)"
        by (metis append_Cons list.simps(9) sql_lower_def)
    next
      assume "\<exists>w v. c # cs = w @ v \<and> sql_lower w = sql_lower (a # q)"
      then obtain w v where wv: "c # cs = w @ v" "sql_lower w = sql_lower (a # q)" by auto
      then obtain w' where "w = c # w'" by (cases w) (auto simp: sql_lower_def)
      with wv show "sql_lower_char a = sql_lower_char c
        \<and> (\<exists>w v. cs = w @ v \<and> sql_lower w = sql_lower q)"
        by (auto simp: sql_lower_def)
    qed
    finally show ?thesis using Cons by simp
  qed
qed

lemma sql_like_contains:
  assumes "CHR ''%'' \<notin> set q" "CHR ''_'' \<notin> set q"
  shows "sql_like (''%'' @ q @ ''%'') t \<longleftrightarrow> sublist (sql_lower q) (sql_lower t)"
proof -
  have "sql_like (''%'' @ q @ ''%'') t \<longleftrightarrow>
      (\<exists>u w v. t = u @ w @ v \<and> sql_lower w = sql_lower q)"
  proof -
    have "sql_like (''%'' @ q @ ''%'') t \<longleftrightarrow> (\<exists>u r. t = u @ r \<and> sql_like (q @ ''%'') r)"
      using sql_like_percent_Cons [of "q @ ''%''" t] by simp
    also have "\<dots> \<longleftrightarrow> (\<exists>u r. t = u @ r \<and> (\<exists>w v. r = w @ v \<and> sql_lower w = sql_lower q))"
      unfolding sql_like_plain_percent [OF assms] ..
    also have "\<dots> \<longleftrightarrow> (\<exists>u w v. t = u @ w @ v \<and> sql_lower w = sql_lower q)"
      by blast
    finally show ?thesis .
  qed
  also have "\<dots> \<longleftrightarrow> sublist (sql_lower q) (sql_lower t)"
  proof
    assume "\<exists>u w v. t = u @ w @ v \<and> sql_lower w = sql_lower q"
    then obtain u w v where "t = u @ w @ v" "sql_lower w = sql_lower q" by auto
    then have "sql_lower t = sql_lower u @ sql_lower q @ sql_lower v"
      by (simp add: sql_lower_def)
    then show "sublist (sql_lower q) (sql_lower t)"
      unfolding sublist_def by blast
  next
    assume "sublist (sql_lower q) (sql_lower t)"
    then obtain a b where "map sql_lower_char t = a @ map sql_lower_char q @ b"
      by (auto simp: sublist_def sql_lower_def)
    then have "\<exists>u r. t = u @ r \<and> a = map sql_lower_char u
        \<and> map sql_lower_char q @ b = map sql_lower_char r"
      by (rule map_eq_append_conv [THEN iffD1])
    then obtain u r where ur: "t = u @ r" "map sql_lower_char r = map sql_lower_char q @ b"
      by metis
    from ur(2) have "\<exists>w v. r = w @ v \<and> map sql_lower_char q = map sql_lower_char w
        \<and> b = map sql_lower_char v"
      by (rule map_eq_append_conv [THEN iffD1])
    then obtain w v where "r = w @ v" "map sql_lower_char w = map sql_lower_char q"
      by metis
    with ur(1) have "t = u @ w @ v \<and> sql_lower w = sql_lower q"
      by (simp add: sql_lower_def)
    then show "\<exists>u w v. t = u @ w @ v \<and> sql_lower w = sql_lower q"
      by blast
  qed
  finally show ?thesis .
qed

lemma sql_limit_cut:
  assumes "y \<in> set xs" "y \<notin> set (sql_limit n xs)"
  shows "0 \<le> n \<and> length (sql_limit n xs) = nat n"
proof -
  from assms have n: "\<not> n < 0" by (auto simp: sql_limit_def)
  with assms have "\<not> length xs \<le> nat n" by (auto simp: sql_limit_def)
  with n show ?thesis by (simp add: sql_limit_def)
qed

subsection \<open>Relevance retrieval with at most ten words\<close>

lemma get_relevant_context_no_words:
  "filter (\<lambda>w. 3 \<le> length w) (py_split situation) = [] \<Longrightarrow>
     get_relevant_context s situation limit = Inr []"
  by (simp add: get_relevant_context_def)

lemma get_relevant_context_upto_ten:
  assumes "ws = map py_lower (filter (\<lambda>w. 3 \<le> length w) (py_split situation))"
    and "ws \<noteq> []" "length ws \<le> 10"
  shows "\<exists>r. get_relevant_context s situation limit = Inr r
     \<and> map fst r = sql_limit limit (order_by_desc d_timestamp
          (filter (\<lambda>d. \<exists>w \<in> set ws. sql_like (''%'' @ w @ ''%'') (sql_lower (d_context d)))
            (decisions s)))"
  using assms by (simp add: get_relevant_context_def Let_def comp_def)

lemma get_relevant_context_example:
  "get_relevant_context store_ctx ''BTC high volatility trade'' 5 = Inr [(dec_btc, 1)]"
  by code_simp

subsection \<open>Patterns: insertion and reinforcement\<close>

lemma add_pattern_insert:
  assumes "find (\<lambda>p. p_pattern_type p = pt \<and> p_description p = d \<and> p_active p) (patterns s) = None"
    and "add_pattern s now hex pt d ev conf tags = Inr (pid, s')"
  shows "pid = ''pat_'' @ take 10 hex \<and> pid \<notin> set (map p_id (patterns s))
     \<and> patterns s' = patterns s @
          [\<lparr>p_id = pid, p_pattern_type = take 100 pt, p_description = take 1000 d,
            p_evidence_count = ev, p_confidence = max 0 (min 1 conf), p_active = True,
            p_created_at = now, p_updated_at = now, p_tags = tags\<rparr>]
     \<and> decisions s' = decisions s \<and> knowledge_rows s' = knowledge_rows s"
  using assms unfolding add_pattern_def Let_def
  by (auto split: if_splits)

lemma add_pattern_update:
  assumes "find (\<lambda>p. p_pattern_type p = pt \<and> p_description p = d \<and> p_active p) (patterns s) = Some e"
    and "add_pattern s now hex pt d ev conf tags = Inr (pid, s')"
  shows "pid = p_id e
     \<and> patterns s' = map (\<lambda>p. if p_id p = p_id e
            then p\<lparr>p_evidence_count := p_evidence_count e + ev,
                   p_confidence := min 0.99 (p_confidence e + 0.05), p_updated_at := now\<rparr>
            else p) (patterns s)
     \<and> decisions s' = decisions s \<and> knowledge_rows s' = knowledge_rows s"
  using assms unfolding add_pattern_def Let_def
  by (auto split: if_splits)

lemma add_pattern_update_total:
  assumes "find (\<lambda>p. p_pattern_type p = pt \<and> p_description p = d \<and> p_active p) (patterns s) = Some e"
  shows "\<exists>s'. add_pattern s now hex pt d ev conf tags = Inr (p_id e, s')"
  using assms unfolding add_pattern_def Let_def by simp

lemma add_pattern_insert_total:
  assumes "find (\<lambda>p. p_pattern_type p = pt \<and> p_description p = d \<and> p_active p) (patterns s) = None"
    and "''pat_'' @ take 10 hex \<notin> set (map p_id (patterns s))"
  shows "\<exists>s'. add_pattern s now hex pt d ev conf tags = Inr (''pat_'' @ take 10 hex, s')"
  using assms unfolding add_pattern_def Let_def by simp

lemma find_snoc:
  "find P (xs @ [x]) = (case find P xs of Some y \<Rightarrow> Some y | None \<Rightarrow> if P x then Some x else None)"
  by (induction xs) auto

lemma map_upd_unique:
  assumes "distinct (map f xs)" "e \<in> set xs"
  shows "map (\<lambda>p. if f p = f e then g p else p) xs = map (\<lambda>p. if p = e then g e else p) xs"
proof (rule map_cong [OF refl])
  fix p assume "p \<in> set xs"
  with assms have "f p = f e \<longleftrightarrow> p = e"
    by (meson distinct_map inj_onD)
  then show "(if f p = f e then g p else p) = (if p = e then g e else p)" by auto
qed

subsection \<open>Tables an operation does not touch\<close>

lemma add_pattern_other_tables:
  "add_pattern s now hex pt d ev conf tags = Inr (pid, s') \<Longrightarrow>
     decisions s' = decisions s \<and> knowledge_rows s' = knowledge_rows s"
  by (auto simp: add_pattern_def Let_def split: option.splits if_splits)

lemma emit_other_tables:
  "emit env e (Inr (s, n)) = Inr (s', n') \<Longrightarrow>
     decisions s' = decisions s \<and> knowledge_rows s' = knowledge_rows s"
  by (cases e) (auto split: sum.splits dest: add_pattern_other_tables)

lemma emit_Inl [simp]: "fold (emit env) es (Inl err) = Inl err"
  by (induction es) auto

lemma fold_emit_other_tables:
  "fold (emit env) es (Inr (s, n)) = Inr (s', n') \<Longrightarrow>
     decisions s' = decisions s \<and> knowledge_rows s' = knowledge_rows s"
proof (induction es arbitrary: s n)
  case Nil
  then show ?case by simp
next
  case (Cons e es)
  show ?case
  proof (cases "emit env e (Inr (s, n))")
    case (Inl err)
    with Cons.prems show ?thesis by simp
  next
    case (Inr sn)
    obtain s1 n1 where sn: "sn = (s1, n1)" by (cases sn)
    from Cons.prems Inr sn have "fold (emit env) es (Inr (s1, n1)) = Inr (s', n')" by simp
    from Cons.IH [OF this] emit_other_tables [OF Inr [unfolded sn]] show ?thesis by simp
  qed
qed

lemma deactivate_other_tables:
  "decisions (snd (deactivate_pattern s i)) = decisions s
   \<and> knowledge_rows (snd (deactivate_pattern s i)) = knowledge_rows s"
  by (simp add: deactivate_pattern_def Let_def)

lemma fold_prune_other_tables:
  "decisions (fst (fold prune_step ps sp)) = decisions (fst sp)
   \<and> knowledge_rows (fst (fold prune_step ps sp)) = knowledge_rows (fst sp)"
  by (induction ps arbitrary: sp) (auto simp: prune_step_def deactivate_other_tables)

lemma prune_other_tables:
  "decisions (fst (prune s)) = decisions s \<and> knowledge_rows (fst (prune s)) = knowledge_rows s"
  using fold_prune_other_tables [of "get_active_patterns s None 0" "(s, 0)"]
  by (simp add: prune_def)

lemma mine_agent_other_tables:
  assumes "mine_agent env s = Inr (res, s')"
  shows "decisions s' = decisions s \<and> knowledge_rows s' = knowledge_rows s"
proof (cases "resolved_decisions (get_stats s) < MIN_EVIDENCE")
  case True
  with assms show ?thesis by (simp add: mine_agent_def Let_def)
next
  case False
  with assms obtain s1 n1 where
    f: "fold (emit env) (strategies (get_recent_decisions s 500 True)) (Inr (s, [])) = Inr (s1, n1)"
    and s': "s' = fst (prune s1)"
    by (auto simp: mine_agent_def Let_def split: sum.splits)
  from fold_emit_other_tables [OF f] prune_other_tables [of s1] s' show ?thesis by simp
qed

subsection \<open>The newest decision comes first\<close>

lemma insort_key_snoc:
  "f x \<le> f y \<Longrightarrow> insort_key f x (zs @ [y]) = insort_key f x zs @ [y]"
  by (induction zs) auto

lemma sort_key_snoc:
  "\<forall>x \<in> set xs. f x \<le> f y \<Longrightarrow> sort_key f (xs @ [y]) = sort_key f xs @ [y]"
proof (induction xs)
  case Nil
  then show ?case by simp
next
  case (Cons a xs)
  then have "sort_key f (xs @ [y]) = sort_key f xs @ [y]" by simp
  with Cons.prems show ?case by (simp add: insort_key_snoc)
qed

lemma order_by_desc_newest:
  "\<forall>x \<in> set xs. f x < f y \<Longrightarrow> order_by_desc f (xs @ [y]) = y # order_by_desc f xs"
  by (simp add: order_by_desc_def sort_key_snoc less_imp_le)

lemma record_decision_rows:
  assumes ok: "record_decision s now hex ctx dec rsn conf tags = Inr (did, s')"
  shows "did = ''dec_'' @ take 10 hex \<and> did \<notin> set (map d_id (decisions s))
     \<and> decisions s' = decisions s @
                [\<lparr>d_id = did, d_timestamp = now, d_context = take 2000 ctx,
                  d_decision = take 2000 dec, d_reasoning = take 2000 rsn,
                  d_confidence = max 0 (min 1 conf),
                  d_outcome = [], d_outcome_score = 0, d_resolved = False, d_tags = tags\<rparr>]
     \<and> patterns s' = patterns s \<and> knowledge_rows s' = knowledge_rows s"
  using ok unfolding record_decision_def Let_def by (auto split: if_splits)

lemma ball_map_if:
  "(\<forall>y \<in> set (map (\<lambda>x. if c x then f x else x) xs). Q y) \<longleftrightarrow>
     (\<forall>x \<in> set xs. (c x \<longrightarrow> Q (f x)) \<and> (\<not> c x \<longrightarrow> Q x))"
  by (induction xs) simp_all

lemma record_outcome_rows:
  "decisions (snd (record_outcome s i outcome score)) =
     map (\<lambda>d. if d_id d = i
            then d\<lparr>d_outcome := take 2000 outcome,
                   d_outcome_score := max (- 1) (min 1 score),
                   d_resolved := True\<rparr>
            else d) (decisions s)"
  by (simp add: record_outcome_def Let_def)

lemma record_outcome_resolves:
  "\<forall>d \<in> set (decisions (snd (record_outcome s i outcome score))). d_id d = i \<longrightarrow> d_resolved d"
  unfolding record_outcome_rows ball_map_if by simp

lemma record_outcome_inv:
  "decision_inv s \<Longrightarrow> decision_inv (snd (record_outcome s i outcome score))"
  unfolding decision_inv_def list_all_iff record_outcome_rows ball_map_if by simp

lemma set_knowledge_other_tables:
  assumes "set_knowledge s now hex cat ky v src ttl = Inr (kid, s')"
  shows "decisions s' = decisions s \<and> patterns s' = patterns s"
proof (cases "find (\<lambda>k. k_category k = cat \<and> k_key k = ky) (knowledge_rows s)")
  case None
  from set_knowledge_insert [OF None assms] show ?thesis by blast
next
  case (Some e)
  from set_knowledge_update [OF Some assms] show ?thesis by blast
qed

subsection \<open>Primary keys and rows kept through a pass\<close>

lemma map_if_ids:
  "map p_id (map (\<lambda>p. if c p then p\<lparr>p_evidence_count := a, p_confidence := b, p_updated_at := t\<rparr> else p) xs)
     = map p_id xs"
  by (induction xs) simp_all

lemma add_pattern_ids:
  assumes "add_pattern s now hex pt d ev conf tags = Inr (pid, s')"
  shows "map p_id (patterns s') = map p_id (patterns s)
     \<or> (pid \<notin> set (map p_id (patterns s)) \<and> map p_id (patterns s') = map p_id (patterns s) @ [pid])"
proof (cases "find (\<lambda>p. p_pattern_type p = pt \<and> p_description p = d \<and> p_active p) (patterns s)")
  case None
  from add_pattern_insert [OF None assms, THEN conjunct2] show ?thesis by simp
next
  case (Some e)
  from add_pattern_update [OF Some assms, THEN conjunct2] show ?thesis by (simp add: map_if_ids)
qed

lemma add_pattern_distinct:
  assumes "distinct (map p_id (patterns s))"
    and "add_pattern s now hex pt d ev conf tags = Inr (pid, s')"
  shows "distinct (map p_id (patterns s'))"
proof -
  from add_pattern_ids [OF assms(2)] show ?thesis
  proof
    assume "map p_id (patterns s') = map p_id (patterns s)"
    with assms(1) show ?thesis by simp
  next
    assume "pid \<notin> set (map p_id (patterns s)) \<and> map p_id (patterns s') = map p_id (patterns s) @ [pid]"
    with assms(1) show ?thesis by simp
  qed
qed

lemma add_pattern_keeps_row:
  assumes dist: "distinct (map p_id (patterns s))"
    and p: "p \<in> set (patterns s)"
    and other: "\<not> (p_pattern_type p = pt \<and> p_description p = d \<and> p_active p)"
    and ok: "add_pattern s now hex pt d ev conf tags = Inr (pid, s')"
  shows "p \<in> set (patterns s')"
proof (cases "find (\<lambda>p. p_pattern_type p = pt \<and> p_description p = d \<and> p_active p) (patterns s)")
  case None
  from add_pattern_insert [OF None ok, THEN conjunct2] p show ?thesis by simp
next
  case (Some e)
  then have e: "e \<in> set (patterns s)" "p_pattern_type e = pt \<and> p_description e = d \<and> p_active e"
    by (auto simp: find_Some_iff)
  with other have "p \<noteq> e" by auto
  with dist p e(1) have ne: "p_id p \<noteq> p_id e"
    by (meson distinct_map inj_onD)
  let ?g = "\<lambda>p. if p_id p = p_id e
            then p\<lparr>p_evidence_count := p_evidence_count e + ev,
                   p_confidence := min 0.99 (p_confidence e + 0.05), p_updated_at := now\<rparr>
            else p"
  from add_pattern_update [OF Some ok, THEN conjunct2] have rows: "patterns s' = map ?g (patterns s)" by simp
  from ne have gp: "?g p = p" by simp
  from p have "?g p \<in> ?g ` set (patterns s)" by (rule imageI)
  then have "p \<in> ?g ` set (patterns s)" unfolding gp .
  then show ?thesis unfolding rows set_map .
qed

lemma fold_emit_distinct:
  "distinct (map p_id (patterns s)) \<Longrightarrow> fold (emit env) es (Inr (s, n)) = Inr (s', n') \<Longrightarrow>
     distinct (map p_id (patterns s'))"
proof (induction es arbitrary: s n)
  case Nil
  then show ?case by simp
next
  case (Cons e es)
  obtain pt d ev conf where e: "e = (pt, d, ev, conf)" by (cases e)
  show ?case
  proof (cases "add_pattern s (fst (env (length n))) (snd (env (length n))) pt d ev conf []")
    case (Inl err)
    with Cons.prems e show ?thesis by simp
  next
    case (Inr r)
    obtain pid s1 where r: "r = (pid, s1)" by (cases r)
    from Cons.prems(2) Inr r e have f: "fold (emit env) es (Inr (s1, n @ [d])) = Inr (s', n')"
      by simp
    from add_pattern_distinct [OF Cons.prems(1) Inr [unfolded r]]
    show ?thesis by (rule Cons.IH [OF _ f])
  qed
qed

lemma fold_emit_keeps_row:
  "distinct (map p_id (patterns s)) \<Longrightarrow> p \<in> set (patterns s) \<Longrightarrow>
   (p_pattern_type p, p_description p) \<notin> set (map (\<lambda>e. (fst e, fst (snd e))) es) \<Longrightarrow>
   fold (emit env) es (Inr (s, n)) = Inr (s', n') \<Longrightarrow> p \<in> set (patterns s')"
proof (induction es arbitrary: s n)
  case Nil
  then show ?case by simp
next
  case (Cons e es)
  obtain pt d ev conf where e: "e = (pt, d, ev, conf)" by (cases e)
  show ?case
  proof (cases "add_pattern s (fst (env (length n))) (snd (env (length n))) pt d ev conf []")
    case (Inl err)
    with Cons.prems e show ?thesis by simp
  next
    case (Inr r)
    obtain pid s1 where r: "r = (pid, s1)" by (cases r)
    from Cons.prems(4) Inr r e have f: "fold (emit env) es (Inr (s1, n @ [d])) = Inr (s', n')"
      by simp
    from Cons.prems(3) e have other: "\<not> (p_pattern_type p = pt \<and> p_description p = d \<and> p_active p)"
      and rest: "(p_pattern_type p, p_description p) \<notin> set (map (\<lambda>e. (fst e, fst (snd e))) es)"
      by auto
    from add_pattern_keeps_row [OF Cons.prems(1,2) other Inr [unfolded r]]
    have p1: "p \<in> set (patterns s1)" .
    from add_pattern_distinct [OF Cons.prems(1) Inr [unfolded r]]
    have d1: "distinct (map p_id (patterns s1))" .
    from Cons.IH [OF d1 p1 rest f] show ?thesis .
  qed
qed

subsection \<open>Pruning\<close>

lemma prune_step_weak:
  "prune_step p sp =
     (if weak p then (snd (deactivate_pattern (fst sp) (p_id p)), snd sp + 1) else sp)"
  by (simp only: prune_step_def weak_def)

lemma set_get_active_patterns:
  "set (get_active_patterns s None 0) = {p \<in> set (patterns s). p_active p}"
  by (simp add: get_active_patterns_def set_order_by_desc)

lemma deactivate_rows:
  "patterns (snd (deactivate_pattern s i)) =
     map (\<lambda>p. if p_id p = i then p\<lparr>p_active := False\<rparr> else p) (patterns s)"
  by (simp add: deactivate_pattern_def Let_def)

lemma fold_prune_rows:
  "patterns (fst (fold prune_step ps sp)) =
     map (\<lambda>p. if p_id p \<in> p_id ` {q \<in> set ps. weak q} then p\<lparr>p_active := False\<rparr> else p)
       (patterns (fst sp))"
proof (induction ps arbitrary: sp)
  case Nil
  show ?case by simp
next
  case (Cons q ps)
  let ?W = "\<lambda>ps. p_id ` {q \<in> set ps. weak q}"
  let ?g = "\<lambda>W p. if p_id p \<in> W then p\<lparr>p_active := False\<rparr> else p"
  have "patterns (fst (fold prune_step (q # ps) sp)) = map (?g (?W ps)) (patterns (fst (prune_step q sp)))"
    using Cons.IH [of "prune_step q sp"] by simp
  also have "\<dots> = map (?g (?W (q # ps))) (patterns (fst sp))"
  proof (cases "weak q")
    case True
    then have W: "?W (q # ps) = insert (p_id q) (?W ps)" by auto
    from True have "patterns (fst (prune_step q sp)) =
        map (\<lambda>p. if p_id p = p_id q then p\<lparr>p_active := False\<rparr> else p) (patterns (fst sp))"
      by (simp add: prune_step_weak deactivate_rows)
    then show ?thesis
      unfolding W by (simp add: comp_def)
  next
    case False
    then have W: "?W (q # ps) = ?W ps" by auto
    from False have "patterns (fst (prune_step q sp)) = patterns (fst sp)"
      by (simp add: prune_step_weak)
    then show ?thesis
      unfolding W by simp
  qed
  finally show ?case .
qed

lemma fold_prune_count:
  "snd (fold prune_step ps sp) = snd sp + length (filter weak ps)"
  by (induction ps arbitrary: sp) (simp_all add: prune_step_weak)

lemma prune_rows:
  assumes dist: "distinct (map p_id (patterns s))"
  shows "patterns (fst (prune s)) =
     map (\<lambda>p. if p_active p \<and> weak p then p\<lparr>p_active := False\<rparr> else p) (patterns s)"
proof -
  let ?L = "get_active_patterns s None 0"
  have rows: "patterns (fst (prune s)) =
     map (\<lambda>p. if p_id p \<in> p_id ` {q \<in> set ?L. weak q}
               then p\<lparr>p_active := False\<rparr> else p) (patterns s)"
    using fold_prune_rows [of ?L "(s, 0)"] by (simp add: prune_def)
  show ?thesis
    unfolding rows
  proof (rule map_cong [OF refl])
    fix p assume p: "p \<in> set (patterns s)"
    have "p_id p \<in> p_id ` {q \<in> set ?L. weak q} \<longleftrightarrow> p_active p \<and> weak p"
    proof
      assume "p_id p \<in> p_id ` {q \<in> set ?L. weak q}"
      then obtain q where q: "q \<in> set ?L" "weak q" "p_id p = p_id q" by blast
      from q(1) have qa: "q \<in> set (patterns s)" "p_active q"
        unfolding set_get_active_patterns by simp_all
      from dist p qa(1) q(3) have "p = q" by (meson distinct_map inj_onD)
      with q(2) qa(2) show "p_active p \<and> weak p"
        by simp
    next
      assume a: "p_active p \<and> weak p"
      with p have "p \<in> {q \<in> set ?L. weak q}"
        unfolding set_get_active_patterns by simp
      then show "p_id p \<in> p_id ` {q \<in> set ?L. weak q}"
        by (rule imageI)
    qed
    then show "(if p_id p \<in> p_id ` {q \<in> set ?L. weak q} then p\<lparr>p_active := False\<rparr> else p)
        = (if p_active p \<and> weak p then p\<lparr>p_active := False\<rparr> else p)"
      by simp
  qed
qed

lemma mine_agent_mined:
  assumes "mine_agent env s = Inr (Mined rd pe pp ta np, s')"
  shows "\<exists>s1. fold (emit env) (strategies (get_recent_decisions s 500 True)) (Inr (s, [])) = Inr (s1, np)
     \<and> s' = fst (prune s1) \<and> pp = snd (prune s1) \<and> pe = length np
     \<and> rd = resolved_decisions (get_stats s) \<and> \<not> resolved_decisions (get_stats s) < MIN_EVIDENCE
     \<and> ta = int (active_patterns (get_stats s)) + int (length np) - int (snd (prune s1))"
proof (cases "resolved_decisions (get_stats s) < MIN_EVIDENCE")
  case True
  with assms show ?thesis by (simp add: mine_agent_def Let_def)
next
  case False
  show ?thesis
  proof (cases "fold (emit env) (strategies (get_recent_decisions s 500 True)) (Inr (s, []))")
    case (Inl err)
    with False assms show ?thesis by (simp add: mine_agent_def Let_def)
  next
    case (Inr r)
    obtain s1 n1 where r: "r = (s1, n1)" by (cases r)
    from assms False Inr r show ?thesis
      by (auto simp: mine_agent_def Let_def)
  qed
qed

lemma mine_prune:
  "mine_agent env0 store_prune = Inr (Mined 3 4 1 5 news_prune, store_pruned)"
  by code_simp

lemma wf_store_prune: "wf_store store_prune"
  by code_simp

subsection \<open>The tag counts\<close>

lemma dict_upd_keys_old:
  "k \<in> fst ` set kvs \<Longrightarrow> map fst (dict_upd k f d kvs) = map fst kvs"
  by (induction kvs) force+

lemma dict_upd_keys_new:
  "k \<notin> fst ` set kvs \<Longrightarrow> map fst (dict_upd k f d kvs) = map fst kvs @ [k]"
  by (induction kvs) auto

lemma dict_upd_keys:
  "map fst (dict_upd k f d kvs) = (if k \<in> set (map fst kvs) then map fst kvs else map fst kvs @ [k])"
  using dict_upd_keys_old [of k kvs f d] dict_upd_keys_new [of k kvs f d] by simp

lemma dict_upd_key_set:
  "fst ` set (dict_upd k f d kvs) = insert k (fst ` set kvs)"
proof -
  have "set (map fst (dict_upd k f d kvs)) = insert k (set (map fst kvs))"
    unfolding dict_upd_keys by auto
  then show ?thesis by simp
qed

lemma dict_upd_distinct:
  "distinct (map fst kvs) \<Longrightarrow> distinct (map fst (dict_upd k f d kvs))"
  by (simp add: dict_upd_keys)

lemma map_of_dict_upd:
  "map_of (dict_upd k f d kvs) =
     (map_of kvs)(k \<mapsto> f (case map_of kvs k of None \<Rightarrow> d | Some v \<Rightarrow> v))"
  by (induction kvs) (auto simp: fun_eq_iff)

lemma fold_tags_one:
  "fold (\<lambda>tag acc'. dict_upd tag (count_tag sc) \<lparr>wins = 0, losses = 0, total = 0\<rparr> acc') ts acc
     = fold tag_step (map (\<lambda>t. (t, sc)) ts) acc"
  by (induction ts arbitrary: acc) (simp_all add: tag_step_def)

lemma fold_tags_all:
  "fold (\<lambda>dec acc.
            fold (\<lambda>tag acc'. dict_upd tag (count_tag (d_outcome_score dec))
                     \<lparr>wins = 0, losses = 0, total = 0\<rparr> acc')
              (d_tags dec) acc) rs acc
     = fold tag_step (tag_obs rs) acc"
  by (induction rs arbitrary: acc) (simp_all add: tag_obs_def fold_tags_one)

lemma tag_outcomes_obs: "tag_outcomes rs = fold tag_step (tag_obs rs) []"
  by (simp add: tag_outcomes_def fold_tags_all)

lemma count_tag_add:
  "count_tag sc c = add_counts c (tally t [(t, sc)])"
  by (simp add: count_tag_def tally_def add_counts_def Let_def)

lemma fold_tag_step_distinct:
  "distinct (map fst acc) \<Longrightarrow> distinct (map fst (fold tag_step obs acc))"
  by (induction obs arbitrary: acc) (simp_all add: tag_step_def dict_upd_distinct)

lemma fold_tag_step_keys:
  "set (map fst (fold tag_step obs acc)) = set (map fst acc) \<union> fst ` set obs"
  by (induction obs arbitrary: acc) (simp_all add: tag_step_def dict_upd_key_set)

lemma fold_tag_step_lookup:
  "map_of (fold tag_step obs acc) t =
     (case map_of acc t of
        Some c \<Rightarrow> Some (add_counts c (tally t obs))
      | None \<Rightarrow> if t \<in> fst ` set obs then Some (tally t obs) else None)"
proof (induction obs arbitrary: acc)
  case Nil
  show ?case
    by (simp add: tally_def add_counts_def split: option.splits)
next
  case (Cons ob obs)
  obtain t' sc where ob: "ob = (t', sc)" by (cases ob)
  show ?case
  proof (cases "t' = t")
    case False
    then have "map_of (tag_step ob acc) t = map_of acc t"
      by (simp add: tag_step_def map_of_dict_upd ob)
    moreover from False have "tally t (ob # obs) = tally t obs"
      by (simp add: tally_def ob)
    moreover from False have "t \<in> fst ` set (ob # obs) \<longleftrightarrow> t \<in> fst ` set obs"
      by (simp add: ob)
    ultimately show ?thesis
      using Cons.IH [of "tag_step ob acc"] by (simp split: option.splits)
  next
    case True
    have step: "map_of (tag_step ob acc) t =
        Some (count_tag sc (case map_of acc t of None \<Rightarrow> \<lparr>wins = 0, losses = 0, total = 0\<rparr> | Some v \<Rightarrow> v))"
      by (simp add: tag_step_def map_of_dict_upd ob True)
    have t1: "tally t (ob # obs) = add_counts (tally t [(t, sc)]) (tally t obs)"
      by (simp add: tally_def add_counts_def ob True)
    show ?thesis
      using Cons.IH [of "tag_step ob acc"] step
      by (auto simp: t1 ob True count_tag_add [of sc _ t] add_counts_def tally_def split: option.splits)
  qed
qed

lemma tag_outcomes_lookup:
  "map_of (tag_outcomes rs) t =
     (if t \<in> fst ` set (tag_obs rs) then Some (tally t (tag_obs rs)) else None)"
  by (simp add: tag_outcomes_obs fold_tag_step_lookup)

lemma tag_outcomes_distinct: "distinct (map fst (tag_outcomes rs))"
  by (simp add: tag_outcomes_obs fold_tag_step_distinct)

lemma tag_outcomes_mem:
  "(t, c) \<in> set (tag_outcomes rs) \<longleftrightarrow> t \<in> fst ` set (tag_obs rs) \<and> c = tally t (tag_obs rs)"
proof -
  have "(t, c) \<in> set (tag_outcomes rs) \<longleftrightarrow> map_of (tag_outcomes rs) t = Some c"
    using tag_outcomes_distinct [of rs] by simp
  then show ?thesis
    unfolding tag_outcomes_lookup by auto
qed

subsection \<open>Descriptions of different tags differ\<close>

lemma show_nat_digits:
  "c \<in> set (show_nat n) \<Longrightarrow> 48 \<le> (of_char c :: nat) \<and> (of_char c :: nat) \<le> 57"
proof (induction n rule: show_nat.induct)
  case (1 n)
  show ?case
  proof (cases "n < 10")
    case True
    with "1.prems" have "c = char_of (48 + n)"
      by (subst (asm) show_nat.simps) simp
    with True show ?thesis by simp
  next
    case False
    with "1.prems" have "c \<in> set (show_nat (n div 10)) \<or> c = char_of (48 + n mod 10)"
      by (subst (asm) show_nat.simps) auto
    then show ?thesis
    proof
      assume "c \<in> set (show_nat (n div 10))"
      with "1.IH" False show ?thesis by simp
    next
      assume "c = char_of (48 + n mod 10)"
      moreover have "n mod 10 < 10" by simp
      ultimately show ?thesis by (simp add: mod_less)
    qed
  qed
qed

lemma quote_not_digit: "CHR 0x27 \<notin> set (show_nat n)"
proof
  assume "CHR 0x27 \<in> set (show_nat n)"
  from show_nat_digits [OF this] show False by simp
qed

lemma quote_not_pct: "CHR 0x27 \<notin> set (fmt_pct x)"
  by (simp add: fmt_pct_def quote_not_digit)

lemma last_quote_split:
  "q \<notin> set a \<Longrightarrow> q \<notin> set b \<Longrightarrow> x @ q # a = y @ q # b \<Longrightarrow> x = y"
proof (induction x arbitrary: y)
  case Nil
  then show ?case by (cases y) auto
next
  case (Cons c x)
  show ?case
  proof (cases y)
    case Nil
    with Cons.prems show ?thesis by auto
  next
    case (Cons c' y')
    with Cons.prems Cons.IH [of y'] show ?thesis by auto
  qed
qed

lemma tag_description_inj:
  assumes "tag_description t wr c = tag_description t' wr' c'"
  shows "t = t'"
proof -
  let ?tail = "\<lambda>wr c. '': '' @ (if wr \<ge> 0.5 then ''wins'' else ''loses'') @ '' '' @ fmt_pct wr
       @ '' of the time ('' @ show_nat (wins c) @ ''W/'' @ show_nat (losses c)
       @ ''L over '' @ show_nat (total c) @ '' decisions)''"
  have d: "tag_description t wr c = (''Tag '' @ [CHR 0x27] @ t) @ CHR 0x27 # ?tail wr c" for t wr c
    by (simp add: tag_description_def)
  have nq: "CHR 0x27 \<notin> set (?tail wr c)" for wr c
    by (simp add: quote_not_digit quote_not_pct)
  from assms have "(''Tag '' @ [CHR 0x27] @ t) @ CHR 0x27 # ?tail wr c
      = (''Tag '' @ [CHR 0x27] @ t') @ CHR 0x27 # ?tail wr' c'"
    unfolding d .
  from last_quote_split [OF nq nq this] show ?thesis by simp
qed

subsection \<open>What the strategies emit\<close>

lemma keyword_emission_type:
  "e \<in> set (keyword_emission w l word) \<Longrightarrow> fst e = ''keyword_signal''"
  by (auto simp: keyword_emission_def Let_def split: if_splits)

lemma keyword_emissions_type:
  "e \<in> set (keyword_emissions rs) \<Longrightarrow> fst e = ''keyword_signal''"
  by (auto simp: keyword_emissions_def Let_def dest: keyword_emission_type)

lemma calibration_emissions_type:
  "e \<in> set (calibration_emissions rs) \<Longrightarrow> fst e = ''calibration''"
  by (auto simp: calibration_emissions_def Let_def split: if_splits)

lemma temporal_emission_type:
  "e \<in> set (temporal_emission hc) \<Longrightarrow> fst e = ''temporal''"
  by (auto simp: temporal_emission_def Let_def split: if_splits)

lemma temporal_emissions_type:
  "e \<in> set (temporal_emissions rs) \<Longrightarrow> fst e = ''temporal''"
  by (auto simp: temporal_emissions_def dest: temporal_emission_type)

lemma other_emissions_type:
  assumes "e \<in> set (keyword_emissions rs @ calibration_emissions rs @ temporal_emissions rs)"
  shows "fst e \<noteq> ''tag_performance''"
proof -
  from assms have "fst e = ''keyword_signal'' \<or> fst e = ''calibration'' \<or> fst e = ''temporal''"
    using keyword_emissions_type calibration_emissions_type temporal_emissions_type
    by (metis Un_iff set_append)
  then show ?thesis by auto
qed

lemma tag_emission_desc:
  "e \<in> set (tag_emission (t, c)) \<Longrightarrow>
     fst e = ''tag_performance'' \<and> (\<exists>wr. fst (snd e) = tag_description t wr c)"
  by (auto simp: tag_emission_def Let_def split: if_splits)

lemma tag_emissions_other_tag:
  assumes "t \<notin> fst ` set tcs" "e \<in> set (concat (map tag_emission tcs))"
  shows "fst (snd e) \<noteq> tag_description t wr c"
proof
  assume eq: "fst (snd e) = tag_description t wr c"
  from assms(2) obtain t' c' where tc: "(t', c') \<in> set tcs" "e \<in> set (tag_emission (t', c'))"
    by auto
  from tag_emission_desc [OF tc(2)] obtain wr' where "fst (snd e) = tag_description t' wr' c'"
    by blast
  with eq have "t = t'" by (metis tag_description_inj)
  with tc(1) assms(1) show False by (metis fst_conv imageI)
qed

lemma fold_emit_news:
  "fold (emit env) es (Inr (s, n)) = Inr (s', n') \<Longrightarrow> n' = n @ map (\<lambda>e. fst (snd e)) es"
proof (induction es arbitrary: s n)
  case Nil
  then show ?case by simp
next
  case (Cons e es)
  obtain pt d ev conf where e: "e = (pt, d, ev, conf)" by (cases e)
  show ?case
  proof (cases "add_pattern s (fst (env (length n))) (snd (env (length n))) pt d ev conf []")
    case (Inl err)
    with Cons.prems e show ?thesis by simp
  next
    case (Inr r)
    obtain pid s1 where r: "r = (pid, s1)" by (cases r)
    from Cons.prems Inr r e have f: "fold (emit env) es (Inr (s1, n @ [d])) = Inr (s', n')"
      by simp
    from Cons.IH [OF f] e show ?thesis by simp
  qed
qed

lemma fold_emit_append:
  assumes "fold (emit env) (es1 @ es2) (Inr (s, n)) = Inr (s', n')"
  shows "\<exists>sa na. fold (emit env) es1 (Inr (s, n)) = Inr (sa, na)
      \<and> fold (emit env) es2 (Inr (sa, na)) = Inr (s', n')"
proof (cases "fold (emit env) es1 (Inr (s, n))")
  case (Inl err)
  with assms show ?thesis by simp
next
  case (Inr r)
  obtain sa na where "r = (sa, na)" by (cases r)
  with Inr assms show ?thesis by simp
qed

lemma emit_one:
  assumes "emit env (pt, d, ev, conf) (Inr (s, n)) = Inr (s', n')"
  shows "\<exists>pid. add_pattern s (fst (env (length n))) (snd (env (length n))) pt d ev conf [] = Inr (pid, s')
      \<and> n' = n @ [d]"
  using assms by (auto split: sum.splits)

lemma add_pattern_no_match_kept:
  assumes none: "\<not> (\<exists>p \<in> set (patterns s). p_pattern_type p = T \<and> p_description p = D \<and> p_active p)"
    and other: "(pt, d) \<noteq> (T, D)"
    and short: "length T < 100" "length D < 1000"
    and ok: "add_pattern s now hex pt d ev conf tags = Inr (pid, s')"
  shows "\<not> (\<exists>p \<in> set (patterns s'). p_pattern_type p = T \<and> p_description p = D \<and> p_active p)"
proof (cases "find (\<lambda>p. p_pattern_type p = pt \<and> p_description p = d \<and> p_active p) (patterns s)")
  case None
  let ?new = "\<lparr>p_id = pid, p_pattern_type = take 100 pt, p_description = take 1000 d,
            p_evidence_count = ev, p_confidence = max 0 (min 1 conf), p_active = True,
            p_created_at = now, p_updated_at = now, p_tags = tags\<rparr>"
  from add_pattern_insert [OF None ok, THEN conjunct2]
  have rows: "patterns s' = patterns s @ [?new]" by simp
  have "\<not> (take 100 pt = T \<and> take 1000 d = D)"
  proof
    assume a: "take 100 pt = T \<and> take 1000 d = D"
    with short have "length (take 100 pt) < 100" "length (take 1000 d) < 1000" by simp_all
    then have "take 100 pt = pt" "take 1000 d = d" by simp_all
    with a other show False by simp
  qed
  with none show ?thesis unfolding rows by auto
next
  case (Some e)
  let ?g = "\<lambda>p. if p_id p = p_id e
            then p\<lparr>p_evidence_count := p_evidence_count e + ev,
                   p_confidence := min 0.99 (p_confidence e + 0.05), p_updated_at := now\<rparr>
            else p"
  from add_pattern_update [OF Some ok, THEN conjunct2] have rows: "patterns s' = map ?g (patterns s)"
    by simp
  have same: "p_pattern_type (?g p) = p_pattern_type p \<and> p_description (?g p) = p_description p
      \<and> p_active (?g p) = p_active p" for p
    by simp
  show ?thesis
  proof
    assume "\<exists>p \<in> set (patterns s'). p_pattern_type p = T \<and> p_description p = D \<and> p_active p"
    then obtain p0 where "p0 \<in> set (patterns s)"
      "p_pattern_type (?g p0) = T \<and> p_description (?g p0) = D \<and> p_active (?g p0)"
      unfolding rows set_map by blast
    with same [of p0] none show False by metis
  qed
qed

lemma fold_emit_no_match_kept:
  "\<not> (\<exists>p \<in> set (patterns s). p_pattern_type p = T \<and> p_description p = D \<and> p_active p) \<Longrightarrow>
   (T, D) \<notin> set (map (\<lambda>e. (fst e, fst (snd e))) es) \<Longrightarrow>
   length T < 100 \<Longrightarrow> length D < 1000 \<Longrightarrow>
   fold (emit env) es (Inr (s, n)) = Inr (s', n') \<Longrightarrow>
   \<not> (\<exists>p \<in> set (patterns s'). p_pattern_type p = T \<and> p_description p = D \<and> p_active p)"
proof (induction es arbitrary: s n)
  case Nil
  then show ?case by simp
next
  case (Cons e es)
  obtain pt d ev conf where e: "e = (pt, d, ev, conf)" by (cases e)
  show ?case
  proof (cases "add_pattern s (fst (env (length n))) (snd (env (length n))) pt d ev conf []")
    case (Inl err)
    with Cons.prems e show ?thesis by simp
  next
    case (Inr r)
    obtain pid s1 where r: "r = (pid, s1)" by (cases r)
    from Cons.prems(5) Inr r e have f: "fold (emit env) es (Inr (s1, n @ [d])) = Inr (s', n')"
      by simp
    from Cons.prems(2) e have other: "(pt, d) \<noteq> (T, D)"
      and rest: "(T, D) \<notin> set (map (\<lambda>e. (fst e, fst (snd e))) es)"
      by auto
    from add_pattern_no_match_kept [OF Cons.prems(1) other Cons.prems(3,4) Inr [unfolded r]]
    have n1: "\<not> (\<exists>p \<in> set (patterns s1). p_pattern_type p = T \<and> p_description p = D \<and> p_active p)" .
    from Cons.IH [OF n1 rest Cons.prems(3,4) f] show ?thesis .
  qed
qed

subsection \<open>A tag whose decisions all have the score 0\<close>

lemma tag_obs_total:
  "length (filter (\<lambda>ob. fst ob = t) (tag_obs rs)) = count_list (concat (map d_tags rs)) t"
proof (induction rs)
  case Nil
  show ?case by (simp add: tag_obs_def)
next
  case (Cons d rs)
  have "length (filter (\<lambda>ob. fst ob = t) (map (\<lambda>x. (x, sc)) ts)) = count_list ts t" for ts and sc :: real
    by (induction ts) simp_all
  with Cons show ?case by (simp add: tag_obs_def)
qed

lemma tag_obs_keys: "fst ` set (tag_obs rs) = (\<Union>d \<in> set rs. set (d_tags d))"
  by (auto simp: tag_obs_def image_iff)

lemma tag_obs_scores:
  "ob \<in> set (tag_obs rs) \<Longrightarrow> \<exists>d \<in> set rs. fst ob \<in> set (d_tags d) \<and> snd ob = d_outcome_score d"
  by (auto simp: tag_obs_def)

lemma tally_zero:
  assumes "\<forall>d \<in> set rs. t \<in> set (d_tags d) \<longrightarrow> d_outcome_score d = 0"
  shows "tally t (tag_obs rs) =
     \<lparr>wins = 0, losses = 0, total = count_list (concat (map d_tags rs)) t\<rparr>"
proof -
  have z: "snd ob = 0" if "ob \<in> set (tag_obs rs)" "fst ob = t" for ob
    using tag_obs_scores [OF that(1)] that(2) assms by auto
  have "filter (\<lambda>ob. fst ob = t \<and> snd ob > 0) (tag_obs rs) = []"
    "filter (\<lambda>ob. fst ob = t \<and> snd ob < 0) (tag_obs rs) = []"
    using z by (auto simp: filter_empty_conv)
  then show ?thesis
    by (simp add: tally_def tag_obs_total)
qed

lemma count_tagged_le:
  "length (filter (\<lambda>d. t \<in> set (d_tags d)) rs) \<le> count_list (concat (map d_tags rs)) t"
proof (induction rs)
  case Nil
  show ?case by simp
next
  case (Cons d rs)
  have one: "t \<in> set ts \<Longrightarrow> 1 \<le> count_list ts t" for ts :: "string list"
    by (induction ts) auto
  show ?case
  proof (cases "t \<in> set (d_tags d)")
    case True
    from one [OF True] Cons show ?thesis using True by (simp add: count_list_append)
  next
    case False
    with Cons show ?thesis by (simp add: count_list_append)
  qed
qed

lemma show_nat_0: "show_nat 0 = ''0''"
  by code_simp

lemma fl_0: "fl 0 = 0"
  by (simp add: fl_def)

lemma fl_1: "fl 1 = 1"
  by code_simp

lemma py_div_0: "py_div 0 b = 0"
  by (simp add: py_div_def fl_def)

lemma MIN_CONFIDENCE_pos: "0 < MIN_CONFIDENCE"
  by code_simp

lemma MIN_CONFIDENCE_compl: "0 \<le> fl (1 - MIN_CONFIDENCE)"
  by code_simp

lemma fl_breakout: "0 \<le> fl 0.8" "fl 0.8 \<le> 1" "\<not> fl 0.8 < 0.5"
  by code_simp+

lemma fmt_pct_0: "fmt_pct 0 = ''0%''"
  by (simp add: fmt_pct_def fl_0 round_half_even_def show_nat_0)

lemma tag_emission_zero:
  assumes "3 \<le> n"
  shows "tag_emission (t, \<lparr>wins = 0, losses = 0, total = n\<rparr>) =
     [(''tag_performance'',
       ''Tag '' @ [CHR 0x27] @ t @ [CHR 0x27] @ '': loses 0% of the time (0W/0L over ''
         @ show_nat n @ '' decisions)'',
       int n, 1)]"
  using assms MIN_CONFIDENCE_pos MIN_CONFIDENCE_compl
  by (simp add: tag_emission_def MIN_EVIDENCE_def py_div_0 fl_1 tag_description_def
      fmt_pct_0 show_nat_0 Let_def)

lemma length_get_recent:
  "length (get_recent_decisions s 500 True) \<le> resolved_decisions (get_stats s)"
  by (simp add: get_recent_decisions_def get_stats_def sql_limit_def length_order_by_desc)

lemma mine_agent_not_skipped:
  assumes "\<not> resolved_decisions (get_stats s) < MIN_EVIDENCE"
    and "mine_agent env s = Inr (res, s')"
  shows "\<exists>s1 np. fold (emit env) (strategies (get_recent_decisions s 500 True)) (Inr (s, [])) = Inr (s1, np)
     \<and> s' = fst (prune s1)
     \<and> res = Mined (resolved_decisions (get_stats s)) (length np) (snd (prune s1))
         (int (active_patterns (get_stats s)) + int (length np) - int (snd (prune s1))) np"
proof (cases "fold (emit env) (strategies (get_recent_decisions s 500 True)) (Inr (s, []))")
  case (Inl err)
  with assms show ?thesis by (simp add: mine_agent_def Let_def)
next
  case (Inr r)
  obtain s1 n1 where r: "r = (s1, n1)" by (cases r)
  from assms Inr r show ?thesis
    by (auto simp: mine_agent_def Let_def)
qed

subsection \<open>Ten decisions with one tag\<close>

lemma filter_order_by_desc:
  "filter P (order_by_desc f xs) = order_by_desc f (filter P xs)"
  by (simp add: order_by_desc_def filter_sort rev_filter [symmetric])

lemma length_filter_order_by_desc:
  "length (filter P (order_by_desc f xs)) = length (filter P xs)"
  by (simp add: filter_order_by_desc length_order_by_desc)

lemma get_recent_all:
  assumes "length (filter d_resolved (decisions s)) \<le> 500"
  shows "get_recent_decisions s 500 True = order_by_desc d_timestamp (filter d_resolved (decisions s))"
  using assms by (simp add: get_recent_decisions_def sql_limit_def length_order_by_desc)

lemma singleton_dict:
  assumes "distinct (map fst xs)" "fst ` set xs = {k}"
  shows "\<exists>v. xs = [(k, v)]"
proof (cases xs)
  case Nil
  with assms(2) show ?thesis by simp
next
  case (Cons a ys)
  from assms(2) Cons have a: "fst a = k" by auto
  have "ys = []"
  proof (cases ys)
    case Nil
    then show ?thesis .
  next
    case (Cons b zs)
    with assms(2) \<open>xs = a # ys\<close> have "fst b = k" by auto
    with assms(1) a \<open>xs = a # ys\<close> Cons show ?thesis by simp
  qed
  with Cons a show ?thesis by (cases a) simp
qed

lemma add_pattern_other_type:
  assumes dist: "distinct (map p_id (patterns s))"
    and other: "pt \<noteq> T" and short: "length T < 100"
    and ok: "add_pattern s now hex pt d ev conf tags = Inr (pid, s')"
  shows "filter (\<lambda>p. p_pattern_type p = T) (patterns s') = filter (\<lambda>p. p_pattern_type p = T) (patterns s)"
proof (cases "find (\<lambda>p. p_pattern_type p = pt \<and> p_description p = d \<and> p_active p) (patterns s)")
  case None
  have "take 100 pt \<noteq> T"
  proof
    assume a: "take 100 pt = T"
    with short have "length (take 100 pt) < 100" by simp
    then have "take 100 pt = pt" by simp
    with a other show False by simp
  qed
  with add_pattern_insert [OF None ok, THEN conjunct2] show ?thesis by simp
next
  case (Some e)
  then have e: "e \<in> set (patterns s)" "p_pattern_type e = pt"
    by (auto simp: find_Some_iff)
  let ?g = "\<lambda>p. if p_id p = p_id e
            then p\<lparr>p_evidence_count := p_evidence_count e + ev,
                   p_confidence := min 0.99 (p_confidence e + 0.05), p_updated_at := now\<rparr>
            else p"
  from add_pattern_update [OF Some ok, THEN conjunct2] have rows: "patterns s' = map ?g (patterns s)"
    by simp
  have ty: "(\<lambda>p. p_pattern_type p = T) \<circ> ?g = (\<lambda>p. p_pattern_type p = T)"
    by (auto simp: fun_eq_iff)
  have "map ?g (filter (\<lambda>p. p_pattern_type p = T) (patterns s)) = filter (\<lambda>p. p_pattern_type p = T) (patterns s)"
  proof (rule map_idI)
    fix p assume "p \<in> set (filter (\<lambda>p. p_pattern_type p = T) (patterns s))"
    then have p: "p \<in> set (patterns s)" "p_pattern_type p = T" by simp_all
    with e other have "p \<noteq> e" by auto
    with dist p(1) e(1) have "p_id p \<noteq> p_id e" by (meson distinct_map inj_onD)
    then show "?g p = p" by simp
  qed
  then show ?thesis
    unfolding rows filter_map ty .
qed

lemma fold_emit_other_type:
  "distinct (map p_id (patterns s)) \<Longrightarrow> \<forall>e \<in> set es. fst e \<noteq> T \<Longrightarrow> length T < 100 \<Longrightarrow>
   fold (emit env) es (Inr (s, n)) = Inr (s', n') \<Longrightarrow>
   filter (\<lambda>p. p_pattern_type p = T) (patterns s') = filter (\<lambda>p. p_pattern_type p = T) (patterns s)"
proof (induction es arbitrary: s n)
  case Nil
  then show ?case by simp
next
  case (Cons e es)
  obtain pt d ev conf where e: "e = (pt, d, ev, conf)" by (cases e)
  show ?case
  proof (cases "add_pattern s (fst (env (length n))) (snd (env (length n))) pt d ev conf []")
    case (Inl err)
    with Cons.prems e show ?thesis by simp
  next
    case (Inr r)
    obtain pid s1 where r: "r = (pid, s1)" by (cases r)
    from Cons.prems(4) Inr r e have f: "fold (emit env) es (Inr (s1, n @ [d])) = Inr (s', n')"
      by simp
    from Cons.prems(2) e have other: "pt \<noteq> T" and rest: "\<forall>e \<in> set es. fst e \<noteq> T"
      by auto
    from add_pattern_other_type [OF Cons.prems(1) other Cons.prems(3) Inr [unfolded r]]
    have same: "filter (\<lambda>p. p_pattern_type p = T) (patterns s1) = filter (\<lambda>p. p_pattern_type p = T) (patterns s)" .
    from add_pattern_distinct [OF Cons.prems(1) Inr [unfolded r]]
    have d1: "distinct (map p_id (patterns s1))" .
    from Cons.IH [OF d1 rest Cons.prems(3) f] same show ?thesis by simp
  qed
qed

lemma tag_emission_breakout:
  "tag_emission (''breakout'', \<lparr>wins = 8, losses = 2, total = 10\<rparr>) =
     [(''tag_performance'',
       ''Tag '' @ [CHR 0x27] @ ''breakout'' @ [CHR 0x27] @ '': wins 80% of the time (8W/2L over 10 decisions)'',
       10, fl 0.8)]"
  by code_simp

lemma mine_agent_skipped:
  "resolved_decisions (get_stats s) < MIN_EVIDENCE \<Longrightarrow>
     mine_agent env s = Inr (Skipped ''insufficient_data'' (resolved_decisions (get_stats s)), s)"
  by (simp add: mine_agent_def Let_def)

lemma tag_obs_single:
  "\<forall>d \<in> set rs. d_tags d = [t] \<Longrightarrow> tag_obs rs = map (\<lambda>d. (t, d_outcome_score d)) rs"
  by (induction rs) (simp_all add: tag_obs_def)

lemma tag_outcomes_keys: "fst ` set (tag_outcomes rs) = fst ` set (tag_obs rs)"
  using fold_tag_step_keys [of "tag_obs rs" "[]"] by (simp add: tag_outcomes_obs)

lemma mine_breakout:
  "mine_agent env0 store_breakout = Inr (Mined 10 4 0 4 news_breakout, store_mined)"
  by code_simp

lemma mine_flat:
  "mine_agent env0 store_flat =
     Inr (Mined 3 1 0 1 [desc_flat],
          store_flat\<lparr>patterns := [new_pattern 0 ''tag_performance'' desc_flat 3 1]\<rparr>)"
  by code_simp

subsection \<open>A pass completes\<close>

lemma add_pattern_ids_subset:
  assumes "add_pattern s now hex pt d ev conf tags = Inr (pid, s')"
  shows "set (map p_id (patterns s')) \<subseteq> insert (''pat_'' @ take 10 hex) (set (map p_id (patterns s)))"
proof (cases "find (\<lambda>p. p_pattern_type p = pt \<and> p_description p = d \<and> p_active p) (patterns s)")
  case None
  from add_pattern_insert [OF None assms] show ?thesis by auto
next
  case (Some e)
  from add_pattern_update [OF Some assms, THEN conjunct2]
  have "map p_id (patterns s') = map p_id (patterns s)" by (simp add: map_if_ids)
  then have "set (map p_id (patterns s')) = set (map p_id (patterns s))" by (rule arg_cong)
  then show ?thesis by blast
qed

lemma add_pattern_total:
  assumes "''pat_'' @ take 10 hex \<notin> set (map p_id (patterns s))"
  shows "\<exists>pid s'. add_pattern s now hex pt d ev conf tags = Inr (pid, s')"
proof (cases "find (\<lambda>p. p_pattern_type p = pt \<and> p_description p = d \<and> p_active p) (patterns s)")
  case None
  from add_pattern_insert_total [OF None assms] show ?thesis by blast
next
  case (Some e)
  from add_pattern_update_total [OF Some] show ?thesis by blast
qed

lemma fold_emit_total:
  assumes "inj_on (\<lambda>i. ''pat_'' @ take 10 (snd (env i))) {length n ..< length n + length es}"
    and "\<forall>i \<in> {length n ..< length n + length es}.
           ''pat_'' @ take 10 (snd (env i)) \<notin> set (map p_id (patterns s))"
  shows "\<exists>s' n'. fold (emit env) es (Inr (s, n)) = Inr (s', n')"
  using assms
proof (induction es arbitrary: s n)
  case Nil
  then show ?case by simp
next
  case (Cons e es)
  let ?f = "\<lambda>i. ''pat_'' @ take 10 (snd (env i))"
  obtain pt d ev conf where e: "e = (pt, d, ev, conf)" by (cases e)
  from Cons.prems(2) have "?f (length n) \<notin> set (map p_id (patterns s))" by simp
  from add_pattern_total [OF this] obtain pid s1
    where ap: "add_pattern s (fst (env (length n))) (snd (env (length n))) pt d ev conf [] = Inr (pid, s1)"
    by blast
  have sub: "{length (n @ [d]) ..< length (n @ [d]) + length es}
      \<subseteq> {length n ..< length n + length (e # es)}" by auto
  from inj_on_subset [OF Cons.prems(1) sub]
  have inj: "inj_on ?f {length (n @ [d]) ..< length (n @ [d]) + length es}" .
  have fresh: "\<forall>i \<in> {length (n @ [d]) ..< length (n @ [d]) + length es}.
      ?f i \<notin> set (map p_id (patterns s1))"
  proof
    fix i assume i: "i \<in> {length (n @ [d]) ..< length (n @ [d]) + length es}"
    then have i': "i \<in> {length n ..< length n + length (e # es)}" using sub by blast
    have n': "length n \<in> {length n ..< length n + length (e # es)}" by simp
    from i have "i \<noteq> length n" by simp
    with inj_onD [OF Cons.prems(1) _ i' n'] have ne: "?f i \<noteq> ?f (length n)" by blast
    from Cons.prems(2) i' have "?f i \<notin> set (map p_id (patterns s))" by blast
    with ne add_pattern_ids_subset [OF ap] show "?f i \<notin> set (map p_id (patterns s1))" by blast
  qed
  from Cons.IH [OF inj fresh] obtain s' n'
    where "fold (emit env) es (Inr (s1, n @ [d])) = Inr (s', n')" by blast
  with ap e show ?case by simp
qed

lemma mine_agent_total:
  assumes "fresh_ids env s"
  shows "\<exists>res s'. mine_agent env s = Inr (res, s')"
proof -
  let ?es = "strategies (get_recent_decisions s 500 True)"
  let ?f = "\<lambda>i. ''pat_'' @ take 10 (snd (env i))"
  from assms have d: "distinct (map ?f [0 ..< length ?es])"
    and f: "\<forall>i \<in> set (map ?f [0 ..< length ?es]). i \<notin> set (map p_id (patterns s))"
    by (simp_all add: fresh_ids_def pattern_ids_def Let_def list_all_iff)
  from d have inj: "inj_on ?f {length ([] :: string list) ..< length ([] :: string list) + length ?es}"
    by (simp add: distinct_map)
  from f have fr: "\<forall>i \<in> {length ([] :: string list) ..< length ([] :: string list) + length ?es}.
      ?f i \<notin> set (map p_id (patterns s))" by simp
  from fold_emit_total [OF inj fr] obtain s1 n1
    where "fold (emit env) ?es (Inr (s, [])) = Inr (s1, n1)" by blast
  then show ?thesis by (simp add: mine_agent_def Let_def)
qed

subsection \<open>The claims\<close>

text \<open>
  C4. \<open>record_outcome\<close> returns true exactly when a decision with the id exists. When it
  exists, the decision keeps its place and its other columns, its outcome is the input cut
  to 2000 characters, its score the input clamped into [-1, 1], and it is resolved; every
  other decision is as before. When no decision has the id, the call returns false and
  the store is unchanged.
\<close>

theorem record_outcome_found_iff:
  "fst (record_outcome s i outcome score) = (i \<in> set (map d_id (decisions s)))
   \<and> length (decisions (snd (record_outcome s i outcome score))) = length (decisions s)
   \<and> (\<forall>n < length (decisions s).
        (d_id (decisions s ! n) = i \<longrightarrow>
           decisions (snd (record_outcome s i outcome score)) ! n =
             (decisions s ! n)\<lparr>d_outcome := take 2000 outcome,
                d_outcome_score := (if score < - 1 then - 1 else if 1 < score then 1 else score),
                d_resolved := True\<rparr>)
        \<and> (d_id (decisions s ! n) \<noteq> i \<longrightarrow>
           decisions (snd (record_outcome s i outcome score)) ! n = decisions s ! n))
   \<and> patterns (snd (record_outcome s i outcome score)) = patterns s
   \<and> knowledge_rows (snd (record_outcome s i outcome score)) = knowledge_rows s
   \<and> (i \<notin> set (map d_id (decisions s)) \<longrightarrow>
        record_outcome s i outcome score = (False, s))"
proof -
  have found: "(0 < length (filter (\<lambda>d. d_id d = i) (decisions s))) = (i \<in> set (map d_id (decisions s)))"
    by (auto simp: filter_empty_conv)
  have same: "i \<notin> set (map d_id (decisions s)) \<Longrightarrow>
      map (\<lambda>d. if d_id d = i
            then d\<lparr>d_outcome := take 2000 outcome,
                   d_outcome_score := max (- 1) (min 1 score),
                   d_resolved := True\<rparr>
            else d) (decisions s) = decisions s"
    by (intro map_idI) auto
  show ?thesis
    using found same by (auto simp: record_outcome_def Let_def max_def min_def)
qed

theorem record_outcome_found_iff_witness:
  "fst (record_outcome store0 ''dec_0000000001'' ''Won'' 0.85)
   \<and> decisions (snd (record_outcome store0 ''dec_0000000001'' ''Won'' 0.85)) ! 0 =
        dec0\<lparr>d_outcome := ''Won'', d_outcome_score := 0.85, d_resolved := True\<rparr>
   \<and> \<not> fst (record_outcome store0 ''dec_ffffffffff'' ''Won'' 0.85)
   \<and> record_outcome store0 ''dec_ffffffffff'' ''Won'' 0.85 = (False, store0)"
  using record_outcome_found_iff [of store0 "''dec_0000000001''" "''Won''" "0.85"]
    record_outcome_found_iff [of store0 "''dec_ffffffffff''" "''Won''" "0.85"]
  by (simp add: store0_def dec0_def)

text \<open>
  C8, as the code has it. \<open>set_knowledge\<close> cuts oversized text and rejects none: on a
  well-formed store, whenever the call returns, the row it names holds the input value cut
  to 5000 characters, the input category cut to 100 characters and the input source cut to
  200 characters; and the call returns whenever the id drawn for a new row is not taken.
\<close>

theorem set_knowledge_truncates:
  assumes wf: "wf_store s"
  shows "(''kn_'' @ take 10 hex \<notin> set (map k_id (knowledge_rows s)) \<longrightarrow>
            returned (set_knowledge s now hex category key value source ttl) \<noteq> None)
     \<and> (\<forall>kid s'. set_knowledge s now hex category key value source ttl = Inr (kid, s') \<longrightarrow>
           (\<exists>k \<in> set (knowledge_rows s'). k_id k = kid)
           \<and> (\<forall>k \<in> set (knowledge_rows s'). k_id k = kid \<longrightarrow>
                 k_value k = take 5000 value \<and> k_category k = take 100 category
                 \<and> k_source k = take 200 source))"
proof (intro conjI allI impI)
  assume "''kn_'' @ take 10 hex \<notin> set (map k_id (knowledge_rows s))"
  then show "returned (set_knowledge s now hex category key value source ttl) \<noteq> None"
    by (simp add: set_knowledge_def returned_def Let_def split: option.splits)
next
  fix kid s'
  assume ok: "set_knowledge s now hex category key value source ttl = Inr (kid, s')"
  have "(\<exists>k \<in> set (knowledge_rows s'). k_id k = kid)
     \<and> (\<forall>k \<in> set (knowledge_rows s'). k_id k = kid \<longrightarrow>
           k_value k = take 5000 value \<and> k_category k = take 100 category
           \<and> k_source k = take 200 source)"
  proof (cases "find (\<lambda>k. k_category k = category \<and> k_key k = key) (knowledge_rows s)")
    case None
    note ins = set_knowledge_insert [OF None ok, THEN conjunct2]
    from ins have fresh: "\<forall>k \<in> set (knowledge_rows s). k_id k \<noteq> kid"
      by auto
    from ins have rows: "knowledge_rows s' = knowledge_rows s @
            [\<lparr>k_id = kid, k_category = take 100 category, k_key = take 200 key,
              k_value = take 5000 value, k_source = take 200 source, k_ttl_hours = ttl,
              k_created_at = now,
              k_expires_at = (if ttl > 0 then Some (now + ttl * 3600000000) else None)\<rparr>]"
      by simp
    show ?thesis
      unfolding rows using fresh by auto
  next
    case (Some e)
    then have e: "e \<in> set (knowledge_rows s)" "k_category e = category"
      by (auto simp: find_Some_iff)
    from wf have d: "distinct (map k_id (knowledge_rows s))"
      and len: "\<forall>k \<in> set (knowledge_rows s). length (k_category k) \<le> 100"
      by (auto simp: wf_store_def list_all_iff)
    from d have uniq: "\<And>k. k \<in> set (knowledge_rows s) \<Longrightarrow> k_id k = k_id e \<Longrightarrow> k = e"
      using e(1) by (meson distinct_map inj_onD)
    from len e have c: "take 100 category = category" by auto
    define upd :: "knowledge \<Rightarrow> knowledge" where "upd = (\<lambda>k. if k_id k = k_id e
                   then k\<lparr>k_value := take 5000 value, k_source := take 200 source,
                          k_ttl_hours := ttl, k_created_at := now,
                          k_expires_at := (if ttl > 0 then Some (now + ttl * 3600000000) else None)\<rparr>
                   else k)"
    from set_knowledge_update [OF Some ok]
    have kid: "kid = k_id e" and rows: "knowledge_rows s' = map upd (knowledge_rows s)"
      by (simp_all add: upd_def)
    have id_upd: "\<And>k. k_id (upd k) = k_id k"
      by (simp add: upd_def)
    have "upd e \<in> set (knowledge_rows s')"
      unfolding rows using e(1) by simp
    then have ex: "\<exists>k \<in> set (knowledge_rows s'). k_id k = kid"
      using id_upd kid by blast
    have all: "k_value k = take 5000 value \<and> k_category k = take 100 category
             \<and> k_source k = take 200 source"
      if "k \<in> set (knowledge_rows s')" "k_id k = kid" for k
    proof -
      from that(1) obtain k0 where k0: "k0 \<in> set (knowledge_rows s)" "k = upd k0"
        unfolding rows by auto
      with that(2) id_upd kid have "k_id k0 = k_id e" by simp
      with uniq k0(1) have "k0 = e" by blast
      with k0(2) e(2) c show ?thesis by (simp add: upd_def)
    qed
    from ex all show ?thesis by blast
  qed
  then show "\<exists>k \<in> set (knowledge_rows s'). k_id k = kid"
    and "\<forall>k \<in> set (knowledge_rows s'). k_id k = kid \<longrightarrow>
           k_value k = take 5000 value \<and> k_category k = take 100 category
           \<and> k_source k = take 200 source"
    by blast+
qed

theorem set_knowledge_truncates_witness:
  "wf_store empty_store
   \<and> ''kn_'' @ take 10 ''0123456789abcdef'' \<notin> set (map k_id (knowledge_rows empty_store))
   \<and> returned (set_knowledge empty_store 0 ''0123456789abcdef'' (replicate 150 CHR ''c'')
        ''k'' (replicate 6000 CHR ''v'') (replicate 250 CHR ''s'') 0) = Some ''kn_0123456789''
   \<and> map (\<lambda>k. (k_id k, k_category k, k_value k, k_source k))
        (knowledge_rows (store_after empty_store
          (set_knowledge empty_store 0 ''0123456789abcdef'' (replicate 150 CHR ''c'')
            ''k'' (replicate 6000 CHR ''v'') (replicate 250 CHR ''s'') 0)))
       = [(''kn_0123456789'', replicate 100 CHR ''c'', replicate 5000 CHR ''v'',
           replicate 200 CHR ''s'')]"
  using set_knowledge_truncates [of empty_store "''0123456789abcdef''" 0
      "replicate 150 CHR ''c''" "''k''" "replicate 6000 CHR ''v''" "replicate 250 CHR ''s''" 0]
  by (simp add: wf_store_def empty_store_def set_knowledge_def returned_def store_after_def
      Let_def)

text \<open>
  C8 as the claim has it fails: a category of 150 characters is stored cut to 100, not
  to 200, and a source of 150 characters is stored whole, not cut to 100.
\<close>

theorem set_knowledge_bounds_counterexample:
  "map (\<lambda>k. (k_category k, k_source k))
     (knowledge_rows (store_after empty_store
       (set_knowledge empty_store 0 ''0123456789abcdef'' (replicate 150 CHR ''c'')
         ''k'' ''v'' (replicate 150 CHR ''s'') 0)))
     = [(replicate 100 CHR ''c'', replicate 150 CHR ''s'')]
   \<and> replicate 100 CHR ''c'' \<noteq> take 200 (replicate 150 CHR ''c'')
   \<and> replicate 150 CHR ''s'' \<noteq> take 100 (replicate 150 CHR ''s'')"
  by (simp add: empty_store_def set_knowledge_def store_after_def Let_def)

text \<open>
  C9. Every \<open>get_knowledge\<close> call first deletes from the table the rows whose \<open>expires_at\<close> is
  set and earlier than the current time, and answers from what is left. So a fact set
  with \<open>ttl_hours = 1\<close> at time \<open>now\<close> is returned by a call up to one hour later, and is
  neither returned by nor left in the table after a call later than that; a fact set with
  \<open>ttl_hours = 0\<close> is returned whenever the call is made.
\<close>

theorem get_knowledge_purges_expired:
  "(\<forall>k. k \<in> set (knowledge_rows (snd (get_knowledge s now category key))) \<longleftrightarrow>
         k \<in> set (knowledge_rows s) \<and> (\<forall>e. k_expires_at k = Some e \<longrightarrow> now \<le> e))
   \<and> set (fst (get_knowledge s now category key))
        \<subseteq> set (knowledge_rows (snd (get_knowledge s now category key)))
   \<and> set (fst (get_knowledge s now None None))
        = set (knowledge_rows (snd (get_knowledge s now None None)))
   \<and> (\<forall>kid s1 t1. set_knowledge s now hex cat ky value source 1 = Inr (kid, s1) \<longrightarrow>
         (t1 \<le> now + 3600000000 \<longrightarrow>
            (\<exists>k \<in> set (fst (get_knowledge s1 t1 None None)).
                k_id k = kid \<and> k_value k = take 5000 value))
         \<and> (now + 3600000000 < t1 \<longrightarrow>
              kid \<notin> set (map k_id (fst (get_knowledge s1 t1 None None)))
              \<and> kid \<notin> set (map k_id (knowledge_rows (snd (get_knowledge s1 t1 None None))))))
   \<and> (\<forall>kid s1 t1. set_knowledge s now hex cat ky value source 0 = Inr (kid, s1) \<longrightarrow>
         (\<exists>k \<in> set (fst (get_knowledge s1 t1 None None)).
             k_id k = kid \<and> k_value k = take 5000 value))"
proof -
  have purge: "k \<in> set (knowledge_rows (snd (get_knowledge s0 t c y))) \<longleftrightarrow>
         k \<in> set (knowledge_rows s0) \<and> (\<forall>e. k_expires_at k = Some e \<longrightarrow> t \<le> e)" for k s0 t c y
    by (auto simp: get_knowledge_def Let_def expired_def split: option.splits)
  have sub: "set (fst (get_knowledge s0 t c y)) \<subseteq> set (knowledge_rows (snd (get_knowledge s0 t c y)))"
    for s0 t c y
    by (auto simp: get_knowledge_def Let_def set_order_by_desc)
  have all: "set (fst (get_knowledge s0 t None None)) = set (knowledge_rows (snd (get_knowledge s0 t None None)))"
    for s0 t
    by (auto simp: get_knowledge_def Let_def set_order_by_desc)
  have one: "(t1 \<le> now + 3600000000 \<longrightarrow>
            (\<exists>k \<in> set (fst (get_knowledge s1 t1 None None)).
                k_id k = kid \<and> k_value k = take 5000 value))
         \<and> (now + 3600000000 < t1 \<longrightarrow>
              kid \<notin> set (map k_id (fst (get_knowledge s1 t1 None None)))
              \<and> kid \<notin> set (map k_id (knowledge_rows (snd (get_knowledge s1 t1 None None)))))"
    if ok: "set_knowledge s now hex cat ky value source 1 = Inr (kid, s1)" for kid s1 t1
  proof -
    from set_knowledge_row [OF ok] obtain k where k: "k \<in> set (knowledge_rows s1)" "k_id k = kid"
      and row: "\<And>k. k \<in> set (knowledge_rows s1) \<Longrightarrow> k_id k = kid \<Longrightarrow>
           k_value k = take 5000 value \<and> k_expires_at k = Some (now + 3600000000)"
      by auto
    show ?thesis
      using k row by (auto simp: all purge)
  qed
  have zero: "\<exists>k \<in> set (fst (get_knowledge s1 t1 None None)).
             k_id k = kid \<and> k_value k = take 5000 value"
    if ok: "set_knowledge s now hex cat ky value source 0 = Inr (kid, s1)" for kid s1 t1
  proof -
    from set_knowledge_row [OF ok] obtain k where k: "k \<in> set (knowledge_rows s1)" "k_id k = kid"
      and row: "\<And>k. k \<in> set (knowledge_rows s1) \<Longrightarrow> k_id k = kid \<Longrightarrow>
           k_value k = take 5000 value \<and> k_expires_at k = None"
      by auto
    show ?thesis
      using k row by (auto simp: all purge)
  qed
  from purge sub all one zero show ?thesis
    by blast
qed

theorem get_knowledge_purges_expired_witness:
  "set_knowledge empty_store 0 hex0 ''risk'' ''btc_vol'' ''high'' ''feed'' 1
     = Inr (''kn_0123456789'', store_fact 1)
   \<and> map (\<lambda>k. (k_id k, k_value k)) (fst (get_knowledge (store_fact 1) 3600000000 None None))
       = [(''kn_0123456789'', ''high'')]
   \<and> fst (get_knowledge (store_fact 1) 3600000001 None None) = []
   \<and> knowledge_rows (snd (get_knowledge (store_fact 1) 3600000001 None None)) = []
   \<and> set_knowledge empty_store 0 hex0 ''risk'' ''btc_vol'' ''high'' ''feed'' 0
     = Inr (''kn_0123456789'', store_fact 0)
   \<and> map (\<lambda>k. (k_id k, k_value k)) (fst (get_knowledge (store_fact 0) 3600000001 None None))
       = [(''kn_0123456789'', ''high'')]"
  using get_knowledge_purges_expired [of empty_store 0 None None hex0 "''risk''" "''btc_vol''"
      "''high''" "''feed''"]
  by (simp add: store_fact_def empty_store_def set_knowledge_def get_knowledge_def
      store_after_def hex0_def expired_def order_by_desc_def Let_def)

text \<open>
  C6, as the code has it. For every query and limit, \<open>search_decisions\<close> returns decisions
  of the store whose context or decision text matches the SQL pattern \<open>%query%\<close> under
  \<open>LIKE\<close>, newest first by timestamp, at most \<open>limit\<close> of them when \<open>limit\<close> is not negative;
  a matching decision is left out only when \<open>limit\<close> rows are returned and it is no newer
  than any of them. For a query without \<open>%\<close> and \<open>_\<close>, matching the pattern is containing
  the query as a substring up to ASCII case.
\<close>

theorem search_decisions_like:
  "sorted_wrt (\<lambda>a b. d_timestamp b \<le> d_timestamp a) (search_decisions s q limit)
   \<and> (0 \<le> limit \<longrightarrow> length (search_decisions s q limit) \<le> nat limit)
   \<and> (\<forall>d \<in> set (search_decisions s q limit). d \<in> set (decisions s)
         \<and> (sql_like (''%'' @ q @ ''%'') (d_context d) \<or> sql_like (''%'' @ q @ ''%'') (d_decision d)))
   \<and> (\<forall>d \<in> set (decisions s).
         sql_like (''%'' @ q @ ''%'') (d_context d) \<or> sql_like (''%'' @ q @ ''%'') (d_decision d) \<longrightarrow>
         d \<notin> set (search_decisions s q limit) \<longrightarrow>
           0 \<le> limit \<and> length (search_decisions s q limit) = nat limit
           \<and> (\<forall>x \<in> set (search_decisions s q limit). d_timestamp d \<le> d_timestamp x))
   \<and> (CHR ''%'' \<notin> set q \<and> CHR ''_'' \<notin> set q \<longrightarrow>
        (\<forall>t. sql_like (''%'' @ q @ ''%'') t \<longleftrightarrow> sublist (sql_lower q) (sql_lower t)))"
proof -
  define hit :: "decision \<Rightarrow> bool" where "hit = (\<lambda>d. sql_like (''%'' @ q @ ''%'') (d_context d)
      \<or> sql_like (''%'' @ q @ ''%'') (d_decision d))"
  define full where "full = order_by_desc d_timestamp (filter hit (decisions s))"
  have r: "search_decisions s q limit = sql_limit limit full"
    by (simp add: search_decisions_def full_def hit_def Let_def)
  have srt: "sorted_wrt (\<lambda>a b. d_timestamp b \<le> d_timestamp a) full"
    unfolding full_def by (rule sorted_order_by_desc)
  have full: "set full = {d \<in> set (decisions s). hit d}"
    by (auto simp: full_def set_order_by_desc)
  have 1: "sorted_wrt (\<lambda>a b. d_timestamp b \<le> d_timestamp a) (search_decisions s q limit)"
    unfolding r using srt by (rule sorted_wrt_sql_limit)
  have 2: "0 \<le> limit \<longrightarrow> length (search_decisions s q limit) \<le> nat limit"
    unfolding r by (simp add: length_sql_limit)
  have 3: "\<forall>d \<in> set (search_decisions s q limit). d \<in> set (decisions s) \<and> hit d"
    unfolding r using set_sql_limit [of limit full] full by auto
  have 4: "0 \<le> limit \<and> length (search_decisions s q limit) = nat limit
           \<and> (\<forall>x \<in> set (search_decisions s q limit). d_timestamp d \<le> d_timestamp x)"
    if "d \<in> set (decisions s)" "hit d" "d \<notin> set (search_decisions s q limit)" for d
  proof -
    from that full have d: "d \<in> set full" "d \<notin> set (sql_limit limit full)"
      by (auto simp: r)
    from sql_limit_cut [OF d] sql_limit_first [OF srt _ d]
    show ?thesis by (simp add: r)
  qed
  have 5: "CHR ''%'' \<notin> set q \<and> CHR ''_'' \<notin> set q \<longrightarrow>
        (\<forall>t. sql_like (''%'' @ q @ ''%'') t \<longleftrightarrow> sublist (sql_lower q) (sql_lower t))"
    using sql_like_contains by blast
  from 1 2 3 4 5 show ?thesis
    unfolding hit_def by blast
qed

theorem search_decisions_like_witness:
  "dec0 \<in> set (search_decisions store0 ''btc'' 10)
   \<and> CHR ''%'' \<notin> set ''btc'' \<and> CHR ''_'' \<notin> set ''btc''
   \<and> sql_like (''%'' @ ''btc'' @ ''%'') (d_context dec0)
   \<and> sublist (sql_lower ''btc'') (sql_lower (d_context dec0))
   \<and> search_decisions store0 ''btc'' 0 = []
   \<and> search_decisions store0 ''eth'' 10 = []"
proof -
  have e: "search_decisions store0 ''btc'' 10 = [dec0]"
    "CHR ''%'' \<notin> set ''btc'' \<and> CHR ''_'' \<notin> set ''btc''"
    "search_decisions store0 ''btc'' 0 = []"
    "search_decisions store0 ''eth'' 10 = []"
    by code_simp+
  have l: "sql_like (''%'' @ ''btc'' @ ''%'') (d_context dec0)"
    by code_simp
  from search_decisions_like [of store0 "''btc''" 10] e(2)
  have "\<forall>t. sql_like (''%'' @ ''btc'' @ ''%'') t \<longleftrightarrow> sublist (sql_lower ''btc'') (sql_lower t)"
    by blast
  with l have "sublist (sql_lower ''btc'') (sql_lower (d_context dec0))"
    by blast
  with e l show ?thesis
    by simp
qed

text \<open>
  C6 as the claim has it fails: the query \<open>btc\<close> finds the decision whose context is
  \<open>BTC high vol\<close>, and the query \<open>h_gh\<close> finds it too, though neither is a substring of
  its context or of its decision text.
\<close>

theorem search_decisions_case_counterexample:
  "search_decisions store0 ''btc'' 10 = [dec0]
   \<and> \<not> sublist ''btc'' (d_context dec0) \<and> \<not> sublist ''btc'' (d_decision dec0)
   \<and> search_decisions store0 ''h_gh'' 10 = [dec0]
   \<and> \<not> sublist ''h_gh'' (d_context dec0) \<and> \<not> sublist ''h_gh'' (d_decision dec0)"
  by code_simp

text \<open>
  C2 fails on the code for a situation with more than ten words of three or more
  characters: the statement is built with one \<open>LIKE ?\<close> for every such word, the parameters
  from the first ten only, and sqlite3 raises on the count. (With no such word the result
  is empty, and with one to ten of them the rows are selected as the claim says, by
  \<open>LIKE\<close>: see \<open>get_relevant_context_no_words\<close>, \<open>get_relevant_context_upto_ten\<close>.)
\<close>

theorem get_relevant_context_raises:
  "10 < length (filter (\<lambda>w. 3 \<le> length w) (py_split situation)) \<Longrightarrow>
     get_relevant_context s situation limit = Inl ProgrammingError"
  by (auto simp: get_relevant_context_def Let_def)

theorem get_relevant_context_raises_witness:
  "10 < length (filter (\<lambda>w. 3 \<le> length w) (py_split situation12))
   \<and> get_relevant_context store_ctx situation12 5 = Inl ProgrammingError"
proof -
  have e: "10 < length (filter (\<lambda>w. 3 \<le> length w) (py_split situation12))"
    by code_simp
  from get_relevant_context_raises [OF e] e show ?thesis
    by simp
qed

text \<open>
  C1. On a well-formed store, when an active row with the given type and description
  exists, \<open>add_pattern\<close> inserts nothing: it returns the id of such a row, and the table
  is as before but for that row, whose evidence count is the old one plus the incoming
  one, whose confidence is \<open>min(0.99, old + 0.05)\<close> and whose \<open>updated_at\<close> is the time of the
  call. And where no active row \<open>("trend", "X")\<close> exists, \<open>add_pattern("trend", "X", 1, 0.5)\<close>
  twice leaves exactly one such active row, with evidence count 2 and confidence 0.55.
\<close>

theorem add_pattern_reinforces:
  assumes wf: "wf_store s"
  shows "((\<exists>p \<in> set (patterns s). p_pattern_type p = pt \<and> p_description p = d \<and> p_active p) \<longrightarrow>
       (\<exists>e s'. e \<in> set (patterns s) \<and> p_pattern_type e = pt \<and> p_description e = d \<and> p_active e
          \<and> add_pattern s now hex pt d ev conf tags = Inr (p_id e, s')
          \<and> patterns s' = map (\<lambda>p. if p = e
                then e\<lparr>p_evidence_count := p_evidence_count e + ev,
                       p_confidence := min 0.99 (p_confidence e + 0.05),
                       p_updated_at := now\<rparr>
                else p) (patterns s)
          \<and> decisions s' = decisions s \<and> knowledge_rows s' = knowledge_rows s))
     \<and> (\<not> (\<exists>p \<in> set (patterns s). p_pattern_type p = ''trend'' \<and> p_description p = ''X'' \<and> p_active p)
          \<and> ''pat_'' @ take 10 hex \<notin> set (map p_id (patterns s)) \<longrightarrow>
         (\<exists>pid s1 s2. add_pattern s now hex ''trend'' ''X'' 1 0.5 tags = Inr (pid, s1)
            \<and> add_pattern s1 now2 hex2 ''trend'' ''X'' 1 0.5 tags2 = Inr (pid, s2)
            \<and> filter (\<lambda>p. p_pattern_type p = ''trend'' \<and> p_description p = ''X'' \<and> p_active p)
                 (patterns s2)
               = [\<lparr>p_id = pid, p_pattern_type = ''trend'', p_description = ''X'',
                   p_evidence_count = 2, p_confidence = 0.55, p_active = True,
                   p_created_at = now, p_updated_at = now2, p_tags = tags\<rparr>]))"
proof (intro conjI impI)
  let ?P = "\<lambda>p. p_pattern_type p = pt \<and> p_description p = d \<and> p_active p"
  assume "\<exists>p \<in> set (patterns s). ?P p"
  then obtain e where f: "find ?P (patterns s) = Some e"
    by (cases "find ?P (patterns s)") (auto simp: find_None_iff)
  then have e: "e \<in> set (patterns s)" "?P e"
    by (auto simp: find_Some_iff)
  from add_pattern_update_total [OF f] obtain s'
    where ok: "add_pattern s now hex pt d ev conf tags = Inr (p_id e, s')" by blast
  from wf have dist: "distinct (map p_id (patterns s))"
    by (simp add: wf_store_def)
  from add_pattern_update [OF f ok]
  have "patterns s' = map (\<lambda>p. if p_id p = p_id e
            then p\<lparr>p_evidence_count := p_evidence_count e + ev,
                   p_confidence := min 0.99 (p_confidence e + 0.05), p_updated_at := now\<rparr>
            else p) (patterns s)"
    and rest: "decisions s' = decisions s" "knowledge_rows s' = knowledge_rows s"
    by simp_all
  then have "patterns s' = map (\<lambda>p. if p = e
                then e\<lparr>p_evidence_count := p_evidence_count e + ev,
                       p_confidence := min 0.99 (p_confidence e + 0.05),
                       p_updated_at := now\<rparr>
                else p) (patterns s)"
    using map_upd_unique [OF dist e(1), of "\<lambda>p. p\<lparr>p_evidence_count := p_evidence_count e + ev,
                   p_confidence := min 0.99 (p_confidence e + 0.05), p_updated_at := now\<rparr>"]
    by simp
  with e ok rest
  show "\<exists>e s'. e \<in> set (patterns s) \<and> p_pattern_type e = pt \<and> p_description e = d \<and> p_active e
          \<and> add_pattern s now hex pt d ev conf tags = Inr (p_id e, s')
          \<and> patterns s' = map (\<lambda>p. if p = e
                then e\<lparr>p_evidence_count := p_evidence_count e + ev,
                       p_confidence := min 0.99 (p_confidence e + 0.05),
                       p_updated_at := now\<rparr>
                else p) (patterns s)
          \<and> decisions s' = decisions s \<and> knowledge_rows s' = knowledge_rows s"
    by blast
next
  let ?Q = "\<lambda>p. p_pattern_type p = ''trend'' \<and> p_description p = ''X'' \<and> p_active p"
  assume a: "\<not> (\<exists>p \<in> set (patterns s). ?Q p)
          \<and> ''pat_'' @ take 10 hex \<notin> set (map p_id (patterns s))"
  define pid where "pid = ''pat_'' @ take 10 hex"
  define new :: pattern where
    "new = \<lparr>p_id = pid, p_pattern_type = ''trend'', p_description = ''X'',
            p_evidence_count = 1, p_confidence = 0.5, p_active = True,
            p_created_at = now, p_updated_at = now, p_tags = tags\<rparr>"
  from a have none: "find ?Q (patterns s) = None"
    by (auto simp: find_None_iff)
  from a have fresh: "pid \<notin> set (map p_id (patterns s))"
    by (simp add: pid_def)
  from add_pattern_insert_total [OF none a [THEN conjunct2]] obtain s1
    where ok1: "add_pattern s now hex ''trend'' ''X'' 1 0.5 tags = Inr (pid, s1)"
    unfolding pid_def by blast
  from add_pattern_insert [OF none ok1]
  have p1: "patterns s1 = patterns s @ [new]"
    by (simp add: new_def)
  have f1: "find ?Q (patterns s1) = Some new"
    unfolding p1 by (simp add: find_snoc none) (simp add: new_def)
  have idnew: "p_id new = pid" by (simp add: new_def)
  from add_pattern_update_total [OF f1] obtain s2
    where ok2: "add_pattern s1 now2 hex2 ''trend'' ''X'' 1 0.5 tags2 = Inr (pid, s2)"
    unfolding idnew by blast
  have old: "map (\<lambda>p. if p_id p = pid then g p else p) (patterns s) = patterns s" for g
    using fresh by (intro map_idI) auto
  from add_pattern_update [OF f1 ok2]
  have p2: "patterns s2 = patterns s @
      [\<lparr>p_id = pid, p_pattern_type = ''trend'', p_description = ''X'',
                   p_evidence_count = 2, p_confidence = 0.55, p_active = True,
                   p_created_at = now, p_updated_at = now2, p_tags = tags\<rparr>]"
    unfolding p1 idnew by (simp add: old) (simp add: new_def)
  from a have "filter ?Q (patterns s) = []"
    by (auto simp: filter_empty_conv)
  then have "filter ?Q (patterns s2)
       = [\<lparr>p_id = pid, p_pattern_type = ''trend'', p_description = ''X'',
                   p_evidence_count = 2, p_confidence = 0.55, p_active = True,
                   p_created_at = now, p_updated_at = now2, p_tags = tags\<rparr>]"
    unfolding p2 by simp
  with ok1 ok2
  show "\<exists>pid s1 s2. add_pattern s now hex ''trend'' ''X'' 1 0.5 tags = Inr (pid, s1)
            \<and> add_pattern s1 now2 hex2 ''trend'' ''X'' 1 0.5 tags2 = Inr (pid, s2)
            \<and> filter ?Q (patterns s2)
               = [\<lparr>p_id = pid, p_pattern_type = ''trend'', p_description = ''X'',
                   p_evidence_count = 2, p_confidence = 0.55, p_active = True,
                   p_created_at = now, p_updated_at = now2, p_tags = tags\<rparr>]"
    by blast
qed

theorem add_pattern_reinforces_witness:
  "wf_store empty_store \<and> wf_store store_trend
   \<and> ''pat_'' @ take 10 hex0 \<notin> set (map p_id (patterns empty_store))
   \<and> add_pattern empty_store 10 hex0 ''trend'' ''X'' 1 0.5 [] = Inr (''pat_0123456789'', store_trend)
   \<and> map (\<lambda>p. (p_pattern_type p, p_description p, p_active p)) (patterns store_trend)
       = [(''trend'', ''X'', True)]
   \<and> returned (add_pattern store_trend 20 hex0 ''trend'' ''X'' 1 0.5 []) = Some ''pat_0123456789''
   \<and> patterns (store_after store_trend (add_pattern store_trend 20 hex0 ''trend'' ''X'' 1 0.5 []))
       = [\<lparr>p_id = ''pat_0123456789'', p_pattern_type = ''trend'', p_description = ''X'',
           p_evidence_count = 2, p_confidence = 0.55, p_active = True,
           p_created_at = 10, p_updated_at = 20, p_tags = []\<rparr>]"
proof -
  have e: "wf_store empty_store" "wf_store store_trend"
    "''pat_'' @ take 10 hex0 \<notin> set (map p_id (patterns empty_store))"
    "add_pattern empty_store 10 hex0 ''trend'' ''X'' 1 0.5 [] = Inr (''pat_0123456789'', store_trend)"
    "map (\<lambda>p. (p_pattern_type p, p_description p, p_active p)) (patterns store_trend)
       = [(''trend'', ''X'', True)]"
    "returned (add_pattern store_trend 20 hex0 ''trend'' ''X'' 1 0.5 []) = Some ''pat_0123456789''"
    "patterns (store_after store_trend (add_pattern store_trend 20 hex0 ''trend'' ''X'' 1 0.5 []))
       = [\<lparr>p_id = ''pat_0123456789'', p_pattern_type = ''trend'', p_description = ''X'',
           p_evidence_count = 2, p_confidence = 0.55, p_active = True,
           p_created_at = 10, p_updated_at = 20, p_tags = []\<rparr>]"
    by code_simp+
  from add_pattern_reinforces [OF e(2), of "''trend''" "''X''" 20 hex0 1 "0.5" "[]"] e
  show ?thesis by simp
qed

text \<open>
  C5. A decision that is not resolved has the empty outcome and the score 0, and every
  operation keeps it so. \<open>record_decision\<close> (which returns whenever the id drawn is not
  taken) appends the decision unresolved, with the empty outcome, the score 0 and the
  confidence clamped into [0, 1], and \<open>get_recent_decisions(limit=1)\<close> right after it
  returns exactly that decision, the clock reading of the call being later than every
  stored timestamp. \<open>record_outcome\<close> keeps the invariant and leaves every decision with
  the id resolved. No other operation changes the table of decisions.
\<close>

theorem decision_inv_preserved:
  assumes inv: "decision_inv s"
  shows "(''dec_'' @ take 10 hex \<notin> set (map d_id (decisions s)) \<longrightarrow>
            returned (record_decision s now hex ctx dec rsn conf tags) = Some (''dec_'' @ take 10 hex))
     \<and> (\<forall>did s'. record_decision s now hex ctx dec rsn conf tags = Inr (did, s') \<longrightarrow>
           decision_inv s'
           \<and> decisions s' = decisions s @
                [\<lparr>d_id = did, d_timestamp = now, d_context = take 2000 ctx,
                  d_decision = take 2000 dec, d_reasoning = take 2000 rsn,
                  d_confidence = (if conf < 0 then 0 else if 1 < conf then 1 else conf),
                  d_outcome = [], d_outcome_score = 0, d_resolved = False, d_tags = tags\<rparr>]
           \<and> ((\<forall>d \<in> set (decisions s). d_timestamp d < now) \<longrightarrow>
                get_recent_decisions s' 1 False =
                  [\<lparr>d_id = did, d_timestamp = now, d_context = take 2000 ctx,
                    d_decision = take 2000 dec, d_reasoning = take 2000 rsn,
                    d_confidence = (if conf < 0 then 0 else if 1 < conf then 1 else conf),
                    d_outcome = [], d_outcome_score = 0, d_resolved = False, d_tags = tags\<rparr>]))
     \<and> decision_inv (snd (record_outcome s i outcome score))
     \<and> (\<forall>d \<in> set (decisions (snd (record_outcome s i outcome score))). d_id d = i \<longrightarrow> d_resolved d)
     \<and> (\<forall>pid s'. add_pattern s now hex pt ds ev conf tags = Inr (pid, s') \<longrightarrow> decisions s' = decisions s)
     \<and> decisions (snd (deactivate_pattern s i)) = decisions s
     \<and> (\<forall>kid s'. set_knowledge s now hex cat ky v src ttl = Inr (kid, s') \<longrightarrow> decisions s' = decisions s)
     \<and> decisions (snd (get_knowledge s now c k)) = decisions s
     \<and> (\<forall>res s'. mine_agent env s = Inr (res, s') \<longrightarrow> decisions s' = decisions s)"
proof -
  let ?new = "\<lambda>did. \<lparr>d_id = did, d_timestamp = now, d_context = take 2000 ctx,
                  d_decision = take 2000 dec, d_reasoning = take 2000 rsn,
                  d_confidence = (if conf < 0 then 0 else if 1 < conf then 1 else conf),
                  d_outcome = [], d_outcome_score = 0, d_resolved = False, d_tags = tags\<rparr>"
  have clamp: "max 0 (min 1 conf) = (if conf < 0 then 0 else if 1 < conf then 1 else conf)"
    by (simp add: max_def min_def)
  have 1: "''dec_'' @ take 10 hex \<notin> set (map d_id (decisions s)) \<longrightarrow>
            returned (record_decision s now hex ctx dec rsn conf tags) = Some (''dec_'' @ take 10 hex)"
    by (simp add: record_decision_def returned_def Let_def)
  have rec: "decision_inv s' \<and> decisions s' = decisions s @ [?new did]
           \<and> ((\<forall>d \<in> set (decisions s). d_timestamp d < now) \<longrightarrow>
                get_recent_decisions s' 1 False = [?new did])"
    if ok: "record_decision s now hex ctx dec rsn conf tags = Inr (did, s')" for did s'
  proof -
    from record_decision_rows [OF ok] have rows: "decisions s' = decisions s @ [?new did]"
      unfolding clamp by simp
    from inv have i: "decision_inv s'"
      by (simp add: decision_inv_def rows)
    have "get_recent_decisions s' 1 False = [?new did]"
      if "\<forall>d \<in> set (decisions s). d_timestamp d < now"
    proof -
      from that have "\<forall>d \<in> set (decisions s). d_timestamp d < d_timestamp (?new did)"
        by simp
      then have "order_by_desc d_timestamp (decisions s @ [?new did])
          = ?new did # order_by_desc d_timestamp (decisions s)"
        by (rule order_by_desc_newest)
      then show ?thesis
        by (simp add: get_recent_decisions_def sql_limit_def rows)
    qed
    with rows i show ?thesis by simp
  qed
  have 2: "\<forall>did s'. record_decision s now hex ctx dec rsn conf tags = Inr (did, s') \<longrightarrow>
      decision_inv s' \<and> decisions s' = decisions s @ [?new did]
           \<and> ((\<forall>d \<in> set (decisions s). d_timestamp d < now) \<longrightarrow>
                get_recent_decisions s' 1 False = [?new did])"
    using rec by (intro allI impI)
  have 3: "decision_inv (snd (record_outcome s i outcome score))"
    using inv by (rule record_outcome_inv)
  have 4: "\<forall>d \<in> set (decisions (snd (record_outcome s i outcome score))). d_id d = i \<longrightarrow> d_resolved d"
    by (rule record_outcome_resolves)
  have 5: "\<forall>pid s'. add_pattern s now hex pt ds ev conf tags = Inr (pid, s') \<longrightarrow> decisions s' = decisions s"
    using add_pattern_other_tables by blast
  have 6: "decisions (snd (deactivate_pattern s i)) = decisions s"
    by (simp add: deactivate_other_tables)
  have 7: "\<forall>kid s'. set_knowledge s now hex cat ky v src ttl = Inr (kid, s') \<longrightarrow> decisions s' = decisions s"
    using set_knowledge_other_tables by blast
  have 8: "decisions (snd (get_knowledge s now c k)) = decisions s"
    by (simp add: get_knowledge_def Let_def)
  have 9: "\<forall>res s'. mine_agent env s = Inr (res, s') \<longrightarrow> decisions s' = decisions s"
    using mine_agent_other_tables by blast
  show ?thesis
    by (intro conjI 1 2 3 4 5 6 7 8 9)
qed

theorem decision_inv_preserved_witness:
  "decision_inv store0
   \<and> ''dec_'' @ take 10 hex0 \<notin> set (map d_id (decisions store0))
   \<and> list_all (\<lambda>d. d_timestamp d < 2000) (decisions store0)
   \<and> record_decision store0 2000 hex0 ''ETH range'' ''Skip'' ''no edge'' 1.7 [''range'']
       = Inr (''dec_0123456789'', store_rec)
   \<and> decision_inv store_rec
   \<and> get_recent_decisions store_rec 1 False =
       [\<lparr>d_id = ''dec_0123456789'', d_timestamp = 2000, d_context = ''ETH range'',
         d_decision = ''Skip'', d_reasoning = ''no edge'', d_confidence = 1,
         d_outcome = [], d_outcome_score = 0, d_resolved = False, d_tags = [''range'']\<rparr>]
   \<and> decision_inv (snd (record_outcome store_rec ''dec_0123456789'' ''Won'' 0.85))
   \<and> map d_resolved (decisions (snd (record_outcome store_rec ''dec_0123456789'' ''Won'' 0.85)))
       = [False, True]"
proof -
  have e: "decision_inv store0"
    "''dec_'' @ take 10 hex0 \<notin> set (map d_id (decisions store0))"
    "list_all (\<lambda>d. d_timestamp d < 2000) (decisions store0)"
    "record_decision store0 2000 hex0 ''ETH range'' ''Skip'' ''no edge'' 1.7 [''range'']
       = Inr (''dec_0123456789'', store_rec)"
    "decision_inv store_rec"
    "map d_resolved (decisions (snd (record_outcome store_rec ''dec_0123456789'' ''Won'' 0.85)))
       = [False, True]"
    by code_simp+
  from e(3) have newest: "\<forall>d \<in> set (decisions store0). d_timestamp d < 2000"
    by (simp add: list_all_iff)
  from decision_inv_preserved [OF e(1), of hex0 2000 "''ETH range''" "''Skip''" "''no edge''"
      "1.7" "[''range'']"] e(4) newest
  have r: "get_recent_decisions store_rec 1 False =
       [\<lparr>d_id = ''dec_0123456789'', d_timestamp = 2000, d_context = ''ETH range'',
         d_decision = ''Skip'', d_reasoning = ''no edge'', d_confidence = 1,
         d_outcome = [], d_outcome_score = 0, d_resolved = False, d_tags = [''range'']\<rparr>]"
    by simp
  from decision_inv_preserved [OF e(5), of hex0 2000 "''ETH range''" "''Skip''" "''no edge''"
      "1.7" "[''range'']" "''dec_0123456789''" "''Won''" "0.85"]
  have "decision_inv (snd (record_outcome store_rec ''dec_0123456789'' ''Won'' 0.85))"
    by blast
  with e r show ?thesis by simp
qed

text \<open>
  C7. After a pass of \<open>mine_agent\<close> that is not skipped, on a well-formed store: no active
  pattern with an evidence count of at most 1 and a confidence below 0.5 is left; the
  table is the one the strategies left, with exactly the active patterns of that kind
  deactivated and every other row as it was; and an active pattern of the store that the
  pass does not emit again is deactivated when it is of that kind and is kept as it is
  otherwise (so one with evidence 1 and confidence 0.3 is deactivated, one with evidence 1
  and confidence 0.6 stays active).
\<close>

theorem mine_agent_prunes:
  assumes wf: "wf_store s"
    and mined: "mine_agent env s = Inr (Mined rd pe pp ta np, s')"
  shows "(\<forall>p \<in> set (patterns s'). \<not> (p_active p \<and> p_evidence_count p \<le> 1 \<and> p_confidence p < 0.5))
   \<and> (\<exists>s1. fold (emit env) (strategies (get_recent_decisions s 500 True)) (Inr (s, [])) = Inr (s1, np)
        \<and> patterns s' = map (\<lambda>p. if p_active p \<and> p_evidence_count p \<le> 1 \<and> p_confidence p < 0.5
                                  then p\<lparr>p_active := False\<rparr> else p) (patterns s1))
   \<and> (\<forall>p \<in> set (patterns s). p_active p \<longrightarrow>
         (p_pattern_type p, p_description p)
           \<notin> set (map (\<lambda>e. (fst e, fst (snd e))) (strategies (get_recent_decisions s 500 True))) \<longrightarrow>
         (if p_evidence_count p \<le> 1 \<and> p_confidence p < 0.5
          then p\<lparr>p_active := False\<rparr> \<in> set (patterns s') \<and> p \<notin> set (patterns s')
          else p \<in> set (patterns s')))"
proof -
  let ?es = "strategies (get_recent_decisions s 500 True)"
  let ?g = "\<lambda>p. if p_active p \<and> weak p then p\<lparr>p_active := False\<rparr> else p"
  from mine_agent_mined [OF mined] obtain s1
    where f: "fold (emit env) ?es (Inr (s, [])) = Inr (s1, np)" and s': "s' = fst (prune s1)"
    by blast
  from wf have dist: "distinct (map p_id (patterns s))"
    by (simp add: wf_store_def)
  from fold_emit_distinct [OF dist f] have dist1: "distinct (map p_id (patterns s1))" .
  from prune_rows [OF dist1] s' have rows: "patterns s' = map ?g (patterns s1)"
    by simp
  have ga: "\<not> (p_active (?g p) \<and> weak (?g p))" for p
    by simp
  have a: "\<forall>p \<in> set (patterns s'). \<not> (p_active p \<and> weak p)"
    unfolding rows set_map using ga by blast
  have c: "if weak p then p\<lparr>p_active := False\<rparr> \<in> set (patterns s') \<and> p \<notin> set (patterns s')
          else p \<in> set (patterns s')"
    if p: "p \<in> set (patterns s)" and act: "p_active p"
      and fresh: "(p_pattern_type p, p_description p) \<notin> set (map (\<lambda>e. (fst e, fst (snd e))) ?es)"
    for p
  proof -
    from fold_emit_keeps_row [OF dist p fresh f] have p1: "p \<in> set (patterns s1)" .
    then have gp: "?g p \<in> set (patterns s')"
      unfolding rows set_map by (rule imageI)
    show ?thesis
    proof (cases "weak p")
      case True
      with act gp have "p\<lparr>p_active := False\<rparr> \<in> set (patterns s')" by simp
      moreover from a True act have "p \<notin> set (patterns s')" by blast
      ultimately show ?thesis using True by simp
    next
      case False
      with gp show ?thesis by simp
    qed
  qed
  from a f rows c show ?thesis
    unfolding weak_def by blast
qed

theorem mine_agent_prunes_witness:
  "wf_store store_prune
   \<and> mine_agent env0 store_prune = Inr (Mined 3 4 1 5 news_prune, store_pruned)
   \<and> take 2 (patterns store_pruned) = [pat_weak\<lparr>p_active := False\<rparr>, pat_strong]
   \<and> map p_active (patterns store_pruned) = [False, True, True, True, True, True]
   \<and> list_all (\<lambda>p. \<not> (p_active p \<and> p_evidence_count p \<le> 1 \<and> p_confidence p < 0.5))
        (patterns store_pruned)"
proof -
  from mine_agent_prunes [OF wf_store_prune mine_prune]
  have "list_all (\<lambda>p. \<not> (p_active p \<and> p_evidence_count p \<le> 1 \<and> p_confidence p < 0.5))
        (patterns store_pruned)"
    unfolding list_all_iff by blast
  moreover have "take 2 (patterns store_pruned) = [pat_weak\<lparr>p_active := False\<rparr>, pat_strong]"
    "map p_active (patterns store_pruned) = [False, True, True, True, True, True]"
    by (simp_all add: store_pruned_def new_pattern_def pat_strong_def pat_weak_def)
  ultimately show ?thesis
    using wf_store_prune mine_prune by simp
qed

text \<open>
  C3. On a well-formed store whose resolved decisions are ten, all tagged \<open>breakout\<close> and
  nothing else, eight with a positive and two with a negative score, and which has no
  active pattern with the description the pass gives the tag, a pass of \<open>mine_agent\<close> that
  completes is not skipped, reports the description, and leaves exactly one pattern of
  type \<open>tag_performance\<close> that was not in the store before: it is active, with the
  evidence count 10 and the confidence 0.8 (the double of that literal, which is the
  float quotient of 8 by 10). With two resolved decisions the pass is skipped for
  \<open>insufficient_data\<close> and the store is unchanged. And the pass does complete: with ids
  drawn pairwise different and fresh for the store, \<open>mine_agent\<close> returns a result and
  raises nothing.
\<close>

theorem mine_agent_breakout:
  assumes wf: "wf_store s"
    and D: "D = ''Tag '' @ [CHR 0x27] @ ''breakout'' @ [CHR 0x27]
                 @ '': wins 80% of the time (8W/2L over 10 decisions)''"
  shows "(length (filter d_resolved (decisions s)) = 10
          \<and> (\<forall>d \<in> set (decisions s). d_resolved d \<longrightarrow> d_tags d = [''breakout''])
          \<and> length (filter (\<lambda>d. d_resolved d \<and> d_outcome_score d > 0) (decisions s)) = 8
          \<and> length (filter (\<lambda>d. d_resolved d \<and> d_outcome_score d < 0) (decisions s)) = 2
          \<and> \<not> (\<exists>p \<in> set (patterns s). p_pattern_type p = ''tag_performance''
                   \<and> p_description p = D \<and> p_active p) \<longrightarrow>
         (\<forall>res s'. mine_agent env s = Inr (res, s') \<longrightarrow>
            (\<exists>pe pp ta np. res = Mined 10 pe pp ta np \<and> D \<in> set np)
            \<and> filter (\<lambda>p. p_pattern_type p = ''tag_performance''
                       \<and> p_id p \<notin> set (map p_id (patterns s))) (patterns s')
               = [\<lparr>p_id = ''pat_'' @ take 10 (snd (env 0)), p_pattern_type = ''tag_performance'',
                   p_description = D, p_evidence_count = 10, p_confidence = fl 0.8,
                   p_active = True, p_created_at = fst (env 0), p_updated_at = fst (env 0),
                   p_tags = []\<rparr>]))
     \<and> (length (filter d_resolved (decisions s)) = 2 \<longrightarrow>
          mine_agent env s = Inr (Skipped ''insufficient_data'' 2, s))
     \<and> (fresh_ids env s \<longrightarrow> (\<exists>res s'. mine_agent env s = Inr (res, s')))"
proof (intro conjI impI allI)
  assume "fresh_ids env s"
  then show "\<exists>res s'. mine_agent env s = Inr (res, s')"
    by (rule mine_agent_total)
next
  assume "length (filter d_resolved (decisions s)) = 2"
  then have "resolved_decisions (get_stats s) = 2" by (simp add: get_stats_def)
  with mine_agent_skipped [of s env] show "mine_agent env s = Inr (Skipped ''insufficient_data'' 2, s)"
    by (simp add: MIN_EVIDENCE_def)
next
  fix res s'
  let ?T = "''tag_performance''"
  let ?res = "filter d_resolved (decisions s)"
  let ?R = "get_recent_decisions s 500 True"
  let ?c = "\<lparr>wins = 8, losses = 2, total = 10\<rparr>"
  let ?e = "(?T, D, 10 :: int, fl 0.8)"
  let ?others = "keyword_emissions ?R @ calibration_emissions ?R @ temporal_emissions ?R"
  let ?r = "\<lparr>p_id = ''pat_'' @ take 10 (snd (env 0)), p_pattern_type = ?T,
                   p_description = D, p_evidence_count = 10, p_confidence = fl 0.8,
                   p_active = True, p_created_at = fst (env 0), p_updated_at = fst (env 0),
                   p_tags = []\<rparr>"
  assume hyp: "length ?res = 10
          \<and> (\<forall>d \<in> set (decisions s). d_resolved d \<longrightarrow> d_tags d = [''breakout''])
          \<and> length (filter (\<lambda>d. d_resolved d \<and> d_outcome_score d > 0) (decisions s)) = 8
          \<and> length (filter (\<lambda>d. d_resolved d \<and> d_outcome_score d < 0) (decisions s)) = 2
          \<and> \<not> (\<exists>p \<in> set (patterns s). p_pattern_type p = ?T \<and> p_description p = D \<and> p_active p)"
    and ok: "mine_agent env s = Inr (res, s')"
  from hyp have len: "length ?res = 10"
    and tags: "\<forall>d \<in> set (decisions s). d_resolved d \<longrightarrow> d_tags d = [''breakout'']"
    and w: "length (filter (\<lambda>d. d_resolved d \<and> d_outcome_score d > 0) (decisions s)) = 8"
    and l: "length (filter (\<lambda>d. d_resolved d \<and> d_outcome_score d < 0) (decisions s)) = 2"
    and none: "\<not> (\<exists>p \<in> set (patterns s). p_pattern_type p = ?T \<and> p_description p = D \<and> p_active p)"
    by blast+
  from len have R: "?R = order_by_desc d_timestamp ?res"
    by (simp add: get_recent_all)
  have setR: "set ?R = set ?res"
    unfolding R by (rule set_order_by_desc)
  have lenR: "length ?R = 10"
    unfolding R using len by (simp add: length_order_by_desc)
  have cnt: "length (filter P ?R) = length (filter (\<lambda>d. d_resolved d \<and> P d) (decisions s))" for P
    unfolding R length_filter_order_by_desc by (simp add: conj_commute)
  from tags setR have tagsR: "\<forall>d \<in> set ?R. d_tags d = [''breakout'']"
    by simp
  then have obs: "tag_obs ?R = map (\<lambda>d. (''breakout'', d_outcome_score d)) ?R"
    by (rule tag_obs_single)
  have tally: "tally ''breakout'' (tag_obs ?R) = ?c"
    unfolding obs tally_def by (simp add: filter_map comp_def cnt w l lenR)
  from lenR have "?R \<noteq> []" by auto
  with tagsR have keys: "fst ` set (tag_obs ?R) = {''breakout''}"
    unfolding tag_obs_keys by (cases ?R) auto
  then have "fst ` set (tag_outcomes ?R) = {''breakout''}"
    by (simp only: tag_outcomes_keys)
  from singleton_dict [OF tag_outcomes_distinct this] obtain v
    where v: "tag_outcomes ?R = [(''breakout'', v)]" by blast
  then have "(''breakout'', v) \<in> set (tag_outcomes ?R)" by simp
  then have "v = ?c" unfolding tag_outcomes_mem tally by simp
  with v have tagout: "tag_outcomes ?R = [(''breakout'', ?c)]" by simp
  have es: "strategies ?R = ?e # ?others"
    by (simp add: strategies_def tag_emissions_def tagout tag_emission_breakout D)
  from len have ns: "\<not> resolved_decisions (get_stats s) < MIN_EVIDENCE"
    by (simp add: get_stats_def MIN_EVIDENCE_def)
  from mine_agent_not_skipped [OF ns ok] obtain s1 np
    where f: "fold (emit env) (strategies ?R) (Inr (s, [])) = Inr (s1, np)"
      and s': "s' = fst (prune s1)"
      and res: "\<exists>pe pp ta. res = Mined (resolved_decisions (get_stats s)) pe pp ta np"
    by blast
  from len have rd: "resolved_decisions (get_stats s) = 10" by (simp add: get_stats_def)
  from fold_emit_news [OF f] have "np = map (\<lambda>e. fst (snd e)) (strategies ?R)" by simp
  then have news: "D \<in> set np" by (simp add: es)
  from res rd news
  show "\<exists>pe pp ta np. res = Mined 10 pe pp ta np \<and> D \<in> set np" by auto
  from f [unfolded es] obtain s0 n0 where e0: "emit env ?e (Inr (s, [])) = Inr (s0, n0)"
    and fo: "fold (emit env) ?others (Inr (s0, n0)) = Inr (s1, np)"
    by (cases "emit env ?e (Inr (s, []))") auto
  from emit_one [OF e0] obtain pid
    where ap: "add_pattern s (fst (env 0)) (snd (env 0)) ?T D 10 (fl 0.8) [] = Inr (pid, s0)"
    by auto
  from none have fnone: "find (\<lambda>p. p_pattern_type p = ?T \<and> p_description p = D \<and> p_active p)
          (patterns s) = None"
    by (auto simp: find_None_iff)
  have Dlen: "take 1000 D = D" by (simp add: D)
  note ins = add_pattern_insert [OF fnone ap]
  from ins have pid: "pid = ''pat_'' @ take 10 (snd (env 0))" by (rule conjunct1)
  from ins have fresh: "pid \<notin> set (map p_id (patterns s))" by blast
  from ins have "patterns s0 = patterns s @
          [\<lparr>p_id = pid, p_pattern_type = take 100 ?T, p_description = take 1000 D,
            p_evidence_count = 10, p_confidence = max 0 (min 1 (fl 0.8)), p_active = True,
            p_created_at = fst (env 0), p_updated_at = fst (env 0), p_tags = []\<rparr>]"
    by blast
  then have rows0: "patterns s0 = patterns s @ [?r]"
    unfolding Dlen pid using fl_breakout by simp
  from fresh have fresh: "p_id ?r \<notin> set (map p_id (patterns s))"
    unfolding pid by simp
  from wf have dist: "distinct (map p_id (patterns s))" by (simp add: wf_store_def)
  from add_pattern_distinct [OF dist ap] have dist0: "distinct (map p_id (patterns s0))" .
  have oth: "\<forall>e \<in> set ?others. fst e \<noteq> ?T"
    using other_emissions_type by blast
  have Tshort: "length ?T < 100" by simp
  from fold_emit_other_type [OF dist0 oth Tshort fo]
  have t1: "filter (\<lambda>p. p_pattern_type p = ?T) (patterns s1)
      = filter (\<lambda>p. p_pattern_type p = ?T) (patterns s) @ [?r]"
    unfolding rows0 by simp
  from fold_emit_distinct [OF dist0 fo] have dist1: "distinct (map p_id (patterns s1))" .
  let ?g = "\<lambda>p. if p_active p \<and> weak p then p\<lparr>p_active := False\<rparr> else p"
  let ?new = "\<lambda>p. p_id p \<notin> set (map p_id (patterns s))"
  from prune_rows [OF dist1] s' have prows: "patterns s' = map ?g (patterns s1)" by simp
  have sel: "(\<lambda>p. p_pattern_type p = ?T \<and> ?new p) \<circ> ?g = (\<lambda>p. p_pattern_type p = ?T \<and> ?new p)"
    by (auto simp: fun_eq_iff)
  have "filter (\<lambda>p. p_pattern_type p = ?T \<and> ?new p) (patterns s1)
      = filter ?new (filter (\<lambda>p. p_pattern_type p = ?T) (patterns s1))"
    by (simp add: conj_commute)
  also have "\<dots> = filter ?new (filter (\<lambda>p. p_pattern_type p = ?T) (patterns s)) @ filter ?new [?r]"
    unfolding t1 by simp
  also have "filter ?new (filter (\<lambda>p. p_pattern_type p = ?T) (patterns s)) = []"
    by (auto simp: filter_empty_conv)
  also have "filter ?new [?r] = [?r]"
    using fresh by simp
  finally have new1: "filter (\<lambda>p. p_pattern_type p = ?T \<and> ?new p) (patterns s1) = [?r]"
    by simp
  have nw: "\<not> weak ?r" using fl_breakout(3) by (simp add: weak_def)
  then have gr: "map ?g [?r] = [?r]" by simp
  have "filter (\<lambda>p. p_pattern_type p = ?T \<and> ?new p) (patterns s')
      = map ?g (filter (\<lambda>p. p_pattern_type p = ?T \<and> ?new p) (patterns s1))"
    unfolding prows filter_map sel ..
  also have "\<dots> = [?r]"
    unfolding new1 by (rule gr)
  finally show "filter (\<lambda>p. p_pattern_type p = ?T \<and> ?new p) (patterns s') = [?r]" .
qed

theorem mine_agent_breakout_witness:
  "wf_store store_breakout
   \<and> length (filter d_resolved (decisions store_breakout)) = 10
   \<and> list_all (\<lambda>d. d_tags d = [''breakout'']) (decisions store_breakout)
   \<and> length (filter (\<lambda>d. d_resolved d \<and> d_outcome_score d > 0) (decisions store_breakout)) = 8
   \<and> length (filter (\<lambda>d. d_resolved d \<and> d_outcome_score d < 0) (decisions store_breakout)) = 2
   \<and> patterns store_breakout = []
   \<and> fresh_ids env0 store_breakout
   \<and> \<not> isl (mine_agent env0 store_breakout)
   \<and> mine_agent env0 store_breakout = Inr (Mined 10 4 0 4 news_breakout, store_mined)
   \<and> filter (\<lambda>p. p_pattern_type p = ''tag_performance''
                       \<and> p_id p \<notin> set (map p_id (patterns store_breakout))) (patterns store_mined)
       = [\<lparr>p_id = ''pat_'' @ take 10 (snd (env0 0)), p_pattern_type = ''tag_performance'',
           p_description = ''Tag '' @ [CHR 0x27] @ ''breakout'' @ [CHR 0x27]
                 @ '': wins 80% of the time (8W/2L over 10 decisions)'',
           p_evidence_count = 10, p_confidence = fl 0.8,
           p_active = True, p_created_at = fst (env0 0), p_updated_at = fst (env0 0),
           p_tags = []\<rparr>]
   \<and> length (filter d_resolved (decisions store_two)) = 2
   \<and> mine_agent env0 store_two = Inr (Skipped ''insufficient_data'' 2, store_two)"
proof -
  have wf: "wf_store store_breakout" by code_simp
  have e: "length (filter d_resolved (decisions store_breakout)) = 10"
    "list_all (\<lambda>d. d_tags d = [''breakout'']) (decisions store_breakout)"
    "length (filter (\<lambda>d. d_resolved d \<and> d_outcome_score d > 0) (decisions store_breakout)) = 8"
    "length (filter (\<lambda>d. d_resolved d \<and> d_outcome_score d < 0) (decisions store_breakout)) = 2"
    "patterns store_breakout = []"
    by code_simp+
  have two: "wf_store store_two" "length (filter d_resolved (decisions store_two)) = 2"
    by code_simp+
  from e(2) have tags: "\<forall>d \<in> set (decisions store_breakout). d_resolved d \<longrightarrow> d_tags d = [''breakout'']"
    by (simp add: list_all_iff)
  from e(5) have none: "\<not> (\<exists>p \<in> set (patterns store_breakout). p_pattern_type p = ''tag_performance''
       \<and> p_description p = ''Tag '' @ [CHR 0x27] @ ''breakout'' @ [CHR 0x27]
                 @ '': wins 80% of the time (8W/2L over 10 decisions)'' \<and> p_active p)"
    by simp
  note th = mine_agent_breakout [OF wf refl, of env0, THEN conjunct1, rule_format,
      OF conjI [OF e(1) conjI [OF tags conjI [OF e(3) conjI [OF e(4) none]]]] mine_breakout,
      THEN conjunct2]
  note sk = mine_agent_breakout [OF two(1) refl, of env0, THEN conjunct2, THEN conjunct1,
      rule_format, OF two(2)]
  have fr: "fresh_ids env0 store_breakout" by code_simp
  from mine_agent_breakout [OF wf refl, of env0, THEN conjunct2, THEN conjunct2, rule_format, OF fr]
  have tot: "\<not> isl (mine_agent env0 store_breakout)" by auto
  from wf e fr tot mine_breakout th two(2) sk show ?thesis
    by (intro conjI)
qed

text \<open>
  C10. When a tag is carried by at least three of the resolved decisions the pass loads,
  and each of them has the score 0, strategy 1 hands \<open>add_pattern\<close> a pattern of type
  \<open>tag_performance\<close> for it with the confidence 1 and the description of a 0W/0L record
  that loses 0% of the time, with all the tag's occurrences as evidence. A pass that
  completes reports that description; and where the store had no active pattern of that
  description (and the description is shorter than the 1000 characters kept), the store
  it leaves has such an active pattern with the confidence 1. And the pass does complete:
  with ids drawn pairwise different and fresh for the store, \<open>mine_agent\<close> returns a
  result and raises nothing.
\<close>

theorem mine_agent_zero_scores:
  assumes wf: "wf_store s"
    and tagged: "3 \<le> length (filter (\<lambda>d. t \<in> set (d_tags d)) (get_recent_decisions s 500 True))"
    and zero: "\<forall>d \<in> set (get_recent_decisions s 500 True). t \<in> set (d_tags d) \<longrightarrow> d_outcome_score d = 0"
    and n: "n = count_list (concat (map d_tags (get_recent_decisions s 500 True))) t"
    and D: "D = ''Tag '' @ [CHR 0x27] @ t @ [CHR 0x27] @ '': loses 0% of the time (0W/0L over ''
         @ show_nat n @ '' decisions)''"
  shows "3 \<le> n
     \<and> (''tag_performance'', D, int n, 1) \<in> set (tag_emissions (get_recent_decisions s 500 True))
     \<and> (\<forall>res s'. mine_agent env s = Inr (res, s') \<longrightarrow>
          (\<exists>rd pe pp ta np. res = Mined rd pe pp ta np \<and> D \<in> set np)
          \<and> (\<not> (\<exists>p \<in> set (patterns s). p_pattern_type p = ''tag_performance''
                    \<and> p_description p = D \<and> p_active p)
               \<and> length D < 1000 \<longrightarrow>
              (\<exists>p \<in> set (patterns s'). p_active p \<and> p_pattern_type p = ''tag_performance''
                  \<and> p_description p = D \<and> p_confidence p = 1 \<and> p_evidence_count p = int n)))
     \<and> (fresh_ids env s \<longrightarrow> (\<exists>res s'. mine_agent env s = Inr (res, s')))"
proof -
  let ?R = "get_recent_decisions s 500 True"
  let ?T = "''tag_performance''"
  let ?c = "\<lparr>wins = 0, losses = 0, total = n\<rparr>"
  let ?e = "(?T, D, int n, 1 :: real)"
  let ?key = "\<lambda>e :: emission. (fst e, fst (snd e))"
  from tagged count_tagged_le [of t ?R] n have n3: "3 \<le> n" by simp
  from tagged have "filter (\<lambda>d. t \<in> set (d_tags d)) ?R \<noteq> []" by auto
  then obtain d where "d \<in> set ?R" "t \<in> set (d_tags d)"
    by (auto simp: filter_empty_conv)
  then have key: "t \<in> fst ` set (tag_obs ?R)"
    unfolding tag_obs_keys by blast
  from tally_zero [OF zero] n have c: "tally t (tag_obs ?R) = ?c" by simp
  from key c have mem: "(t, ?c) \<in> set (tag_outcomes ?R)"
    by (simp add: tag_outcomes_mem)
  then obtain A B where AB: "tag_outcomes ?R = A @ (t, ?c) # B"
    by (meson split_list)
  from tag_outcomes_distinct [of ?R] have tA: "t \<notin> fst ` set A" and tB: "t \<notin> fst ` set B"
    unfolding AB by auto
  have et: "tag_emission (t, ?c) = [?e]"
    using tag_emission_zero [OF n3, of t] D by simp
  define EA where "EA = concat (map tag_emission A)"
  define EB where "EB = concat (map tag_emission B) @ keyword_emissions ?R
      @ calibration_emissions ?R @ temporal_emissions ?R"
  have es: "strategies ?R = EA @ ?e # EB"
    by (simp add: strategies_def tag_emissions_def AB et EA_def EB_def)
  have te: "tag_emissions ?R = EA @ ?e # concat (map tag_emission B)"
    by (simp add: tag_emissions_def AB et EA_def)
  have Ddesc: "D = tag_description t 0 ?c"
    by (simp add: D tag_description_def fmt_pct_0 show_nat_0)
  have kA: "(?T, D) \<notin> set (map ?key EA)"
  proof
    assume "(?T, D) \<in> set (map ?key EA)"
    then obtain e where "e \<in> set EA" "fst (snd e) = D" by auto
    with tag_emissions_other_tag [OF tA, of e 0 ?c] Ddesc show False
      by (simp add: EA_def)
  qed
  have kB: "(?T, D) \<notin> set (map ?key EB)"
  proof
    assume "(?T, D) \<in> set (map ?key EB)"
    then obtain e where e: "e \<in> set EB" "fst e = ?T" "fst (snd e) = D" by auto
    from e(1) have "e \<in> set (concat (map tag_emission B))
        \<or> e \<in> set (keyword_emissions ?R @ calibration_emissions ?R @ temporal_emissions ?R)"
      by (auto simp: EB_def)
    then show False
    proof
      assume "e \<in> set (concat (map tag_emission B))"
      with tag_emissions_other_tag [OF tB, of e 0 ?c] Ddesc e(3) show False by simp
    next
      assume "e \<in> set (keyword_emissions ?R @ calibration_emissions ?R @ temporal_emissions ?R)"
      from other_emissions_type [OF this] e(2) show False by simp
    qed
  qed
  have part2: "(\<exists>rd pe pp ta np. res = Mined rd pe pp ta np \<and> D \<in> set np)
          \<and> (\<not> (\<exists>p \<in> set (patterns s). p_pattern_type p = ?T \<and> p_description p = D \<and> p_active p)
               \<and> length D < 1000 \<longrightarrow>
              (\<exists>p \<in> set (patterns s'). p_active p \<and> p_pattern_type p = ?T
                  \<and> p_description p = D \<and> p_confidence p = 1 \<and> p_evidence_count p = int n))"
    if ok: "mine_agent env s = Inr (res, s')" for res s'
  proof -
    from tagged have "3 \<le> length ?R"
      by (meson le_trans length_filter_le)
    with length_get_recent [of s] have ns: "\<not> resolved_decisions (get_stats s) < MIN_EVIDENCE"
      by (simp add: MIN_EVIDENCE_def)
    from mine_agent_not_skipped [OF ns ok] obtain s1 np
      where f: "fold (emit env) (strategies ?R) (Inr (s, [])) = Inr (s1, np)"
        and s': "s' = fst (prune s1)"
        and res: "\<exists>rd pe pp ta. res = Mined rd pe pp ta np"
      by blast
    from fold_emit_news [OF f] have "np = map (\<lambda>e. fst (snd e)) (strategies ?R)" by simp
    then have news: "D \<in> set np" by (simp add: es)
    have stored: "\<exists>p \<in> set (patterns s'). p_active p \<and> p_pattern_type p = ?T
                  \<and> p_description p = D \<and> p_confidence p = 1 \<and> p_evidence_count p = int n"
      if none: "\<not> (\<exists>p \<in> set (patterns s). p_pattern_type p = ?T \<and> p_description p = D \<and> p_active p)"
        and short: "length D < 1000"
    proof -
      from f [unfolded es] fold_emit_append [of env EA "?e # EB" s "[]" s1 np]
      obtain sa na where fa: "fold (emit env) EA (Inr (s, [])) = Inr (sa, na)"
        and fb: "fold (emit env) (?e # EB) (Inr (sa, na)) = Inr (s1, np)"
        by blast
      from wf have dist: "distinct (map p_id (patterns s))" by (simp add: wf_store_def)
      from fold_emit_distinct [OF dist fa] have dista: "distinct (map p_id (patterns sa))" .
      have Tshort: "length ?T < 100" by simp
      from fold_emit_no_match_kept [OF none kA Tshort short fa]
      have nonea: "\<not> (\<exists>p \<in> set (patterns sa). p_pattern_type p = ?T \<and> p_description p = D \<and> p_active p)" .
      from fb obtain sb nb where eb: "emit env ?e (Inr (sa, na)) = Inr (sb, nb)"
        and fe: "fold (emit env) EB (Inr (sb, nb)) = Inr (s1, np)"
        by (cases "emit env ?e (Inr (sa, na))") auto
      from emit_one [OF eb] obtain pid
        where ap: "add_pattern sa (fst (env (length na))) (snd (env (length na))) ?T D (int n) 1 [] = Inr (pid, sb)"
        by blast
      from nonea have fnone: "find (\<lambda>p. p_pattern_type p = ?T \<and> p_description p = D \<and> p_active p)
          (patterns sa) = None"
        by (auto simp: find_None_iff)
      define r where "r = \<lparr>p_id = pid, p_pattern_type = ?T, p_description = D,
            p_evidence_count = int n, p_confidence = 1, p_active = True,
            p_created_at = fst (env (length na)), p_updated_at = fst (env (length na)),
            p_tags = []\<rparr>"
      from add_pattern_insert [OF fnone ap, THEN conjunct2] short
      have rows: "patterns sb = patterns sa @ [r]"
        by (simp add: r_def)
      then have rb: "r \<in> set (patterns sb)" by simp
      from add_pattern_distinct [OF dista ap] have distb: "distinct (map p_id (patterns sb))" .
      have rk: "(p_pattern_type r, p_description r) \<notin> set (map ?key EB)"
        using kB by (simp add: r_def)
      from fold_emit_keeps_row [OF distb rb rk fe] have r1: "r \<in> set (patterns s1)" .
      from fold_emit_distinct [OF distb fe] have dist1: "distinct (map p_id (patterns s1))" .
      have nw: "\<not> weak r" using n3 by (simp add: weak_def r_def)
      let ?g = "\<lambda>p. if p_active p \<and> weak p then p\<lparr>p_active := False\<rparr> else p"
      from prune_rows [OF dist1] s' have prows: "patterns s' = map ?g (patterns s1)"
        by simp
      from nw have gr: "?g r = r"
        by simp
      from r1 have "?g r \<in> ?g ` set (patterns s1)" by (rule imageI)
      then have "r \<in> ?g ` set (patterns s1)" unfolding gr .
      then have "r \<in> set (patterns s')" unfolding prows set_map .
      moreover have "p_active r \<and> p_pattern_type r = ?T
                  \<and> p_description r = D \<and> p_confidence r = 1 \<and> p_evidence_count r = int n"
        by (simp add: r_def)
      ultimately show ?thesis by blast
    qed
    from res news stored show ?thesis by blast
  qed
  have part1: "?e \<in> set (tag_emissions ?R)"
    by (simp add: te)
  have part3: "fresh_ids env s \<longrightarrow> (\<exists>res s'. mine_agent env s = Inr (res, s'))"
    using mine_agent_total [of env s] by blast
  from n3 part1 part2 part3 show ?thesis by blast
qed

theorem mine_agent_zero_scores_witness:
  "wf_store store_flat
   \<and> 3 \<le> length (filter (\<lambda>d. ''flat'' \<in> set (d_tags d)) (get_recent_decisions store_flat 500 True))
   \<and> list_all (\<lambda>d. d_outcome_score d = 0) (get_recent_decisions store_flat 500 True)
   \<and> count_list (concat (map d_tags (get_recent_decisions store_flat 500 True))) ''flat'' = 3
   \<and> patterns store_flat = []
   \<and> fresh_ids env0 store_flat
   \<and> (''tag_performance'', desc_flat, 3, 1) \<in> set (tag_emissions (get_recent_decisions store_flat 500 True))
   \<and> \<not> isl (mine_agent env0 store_flat)
   \<and> mine_agent env0 store_flat =
       Inr (Mined 3 1 0 1 [desc_flat],
            store_flat\<lparr>patterns := [new_pattern 0 ''tag_performance'' desc_flat 3 1]\<rparr>)
   \<and> p_confidence (new_pattern 0 ''tag_performance'' desc_flat 3 1) = 1"
proof -
  have wf: "wf_store store_flat" by code_simp
  have e: "3 \<le> length (filter (\<lambda>d. ''flat'' \<in> set (d_tags d)) (get_recent_decisions store_flat 500 True))"
    "list_all (\<lambda>d. d_outcome_score d = 0) (get_recent_decisions store_flat 500 True)"
    "count_list (concat (map d_tags (get_recent_decisions store_flat 500 True))) ''flat'' = 3"
    "patterns store_flat = []"
    by code_simp+
  have d: "''Tag '' @ [CHR 0x27] @ ''flat'' @ [CHR 0x27] @ '': loses 0% of the time (0W/0L over ''
         @ show_nat 3 @ '' decisions)'' = desc_flat"
    by code_simp
  from e(2) have zero: "\<forall>d \<in> set (get_recent_decisions store_flat 500 True).
      ''flat'' \<in> set (d_tags d) \<longrightarrow> d_outcome_score d = 0"
    by (simp add: list_all_iff)
  note th = mine_agent_zero_scores [OF wf e(1) zero e(3) [symmetric] d [symmetric], of env0]
  from th have em: "(''tag_performance'', desc_flat, 3, 1)
      \<in> set (tag_emissions (get_recent_decisions store_flat 500 True))"
    by simp
  have fr: "fresh_ids env0 store_flat" by code_simp
  from th [THEN conjunct2, THEN conjunct2, THEN conjunct2, rule_format, OF fr]
  have tot: "\<not> isl (mine_agent env0 store_flat)" by auto
  have c: "p_confidence (new_pattern 0 ''tag_performance'' desc_flat 3 1) = 1"
    by (simp add: new_pattern_def)
  from wf e fr em tot mine_flat c show ?thesis
    by (intro conjI)
qed

end
